theory Spec2Isabelle
  imports
    Main
    "HOL-Library.Char_ord"
    "HOL-Library.List_Lexorder"
    "HOL-Library.Product_Lexorder"
    "HOL-Library.AList"
begin

section \<open>Exceptions and the files read by the classifier\<close>

text \<open>
  Python strings and byte strings are lists of characters; their order is the
  lexicographic order on character codes, as Python compares \<open>str\<close> values.
\<close>

type_synonym bytes = string

text \<open>
  \<open>PermissionError\<close> is a subclass of \<open>OSError\<close>; \<open>OSError msg\<close> stands for every
  other operating system error, with \<open>msg\<close> the text of \<open>str(e)\<close>.
\<close>

datatype os_error = PermissionError | OSError string

datatype py_exc = OSErr os_error | IndexError | EOFError | TypeError

text \<open>
  What the classifier can observe of one path: whether \<open>open(path, "rb")\<close> raises, the
  bytes of the file, and whether a \<open>read\<close> call on an open handle raises
  (\<open>read_error_at = Some n\<close>: the call number \<open>n\<close>, counted from 0, raises).
\<close>

record disk_file =
  open_error :: "os_error option"
  content :: bytes
  read_error_at :: "nat option"

type_synonym disk = "string \<Rightarrow> disk_file"

record handle =
  rest :: bytes
  fault_in :: "nat option"

definition open_rb :: "disk \<Rightarrow> string \<Rightarrow> os_error + handle" where
  "open_rb d path =
     (case open_error (d path) of
        Some e \<Rightarrow> Inl e
      | None \<Rightarrow> Inr \<lparr>rest = content (d path), fault_in = read_error_at (d path)\<rparr>)"

text \<open>
  \<open>f.read(chunk_size)\<close> on a buffered binary file: the next \<open>chunk_size\<close> bytes, fewer
  at the end of the file, none at the end; a negative size reads all that is left.
\<close>

definition f_read :: "handle \<Rightarrow> int \<Rightarrow> os_error + (bytes \<times> handle)" where
  "f_read h chunk_size =
     (if fault_in h = Some 0 then Inl (OSError ''read'')
      else
        let chunk = (if chunk_size < 0 then rest h else take (nat chunk_size) (rest h))
        in Inr (chunk,
                \<lparr>rest = drop (length chunk) (rest h),
                 fault_in = map_option (\<lambda>n. n - 1) (fault_in h)\<rparr>))"

lemma f_read_shrinks:
  "f_read h cs = Inr (chunk, h') \<Longrightarrow> chunk \<noteq> [] \<Longrightarrow> length (rest h') < length (rest h)"
  by (auto simp: f_read_def Let_def split: if_splits)

section \<open>Byte-by-byte comparison\<close>

text \<open>The \<open>while True\<close> loop of \<open>compare_files_byte_by_byte\<close>.\<close>

function compare_loop :: "handle \<Rightarrow> handle \<Rightarrow> int \<Rightarrow> os_error + bool" where
  "compare_loop f1 f2 chunk_size =
     (case f_read f1 chunk_size of
        Inl e \<Rightarrow> Inl e
      | Inr (chunk1, f1') \<Rightarrow>
          (case f_read f2 chunk_size of
             Inl e \<Rightarrow> Inl e
           | Inr (chunk2, f2') \<Rightarrow>
               if chunk1 \<noteq> chunk2 then Inr False
               else if chunk1 = [] then Inr True
               else compare_loop f1' f2' chunk_size))"
  by pat_completeness auto
termination
  by (relation "measure (\<lambda>(f1, f2, cs). length (rest f1))") (auto dest: f_read_shrinks)

declare compare_loop.simps [simp del]

definition compare_files_byte_by_byte :: "disk \<Rightarrow> string \<Rightarrow> string \<Rightarrow> int \<Rightarrow> bool" where
  "compare_files_byte_by_byte d file1 file2 chunk_size =
     (case open_rb d file1 of
        Inl e \<Rightarrow> False
      | Inr f1 \<Rightarrow>
          (case open_rb d file2 of
             Inl e \<Rightarrow> False
           | Inr f2 \<Rightarrow>
               (case compare_loop f1 f2 chunk_size of
                  Inl e \<Rightarrow> False
                | Inr b \<Rightarrow> b)))"

text \<open>
  Reading one file alone to its end, in chunks, stopping at the first empty chunk: the
  meaning of ``the file can be read to end-of-file''.
\<close>

function read_chunks :: "handle \<Rightarrow> int \<Rightarrow> os_error + bytes" where
  "read_chunks f chunk_size =
     (case f_read f chunk_size of
        Inl e \<Rightarrow> Inl e
      | Inr (chunk, f') \<Rightarrow>
          if chunk = [] then Inr []
          else (case read_chunks f' chunk_size of
                  Inl e \<Rightarrow> Inl e
                | Inr bs \<Rightarrow> Inr (chunk @ bs)))"
  by pat_completeness auto
termination
  by (relation "measure (\<lambda>(f, cs). length (rest f))") (auto dest: f_read_shrinks)

declare read_chunks.simps [simp del]

definition read_to_eof :: "disk \<Rightarrow> string \<Rightarrow> int \<Rightarrow> os_error + bytes" where
  "read_to_eof d path chunk_size =
     (case open_rb d path of
        Inl e \<Rightarrow> Inl e
      | Inr f \<Rightarrow> read_chunks f chunk_size)"

section \<open>Hash comparison\<close>

text \<open>
  \<open>hashlib\<close> is not part of the program: the digest function is a parameter \<open>H\<close>, the
  SHA-256 value (a number below \<open>2 ^ 256\<close>) of the bytes fed to the hasher (\<open>update\<close>
  appends, so the hasher is the byte string fed so far). \<open>hexdigest\<close> writes it as 64
  lower-case hexadecimal digits. Every caller in the program uses the algorithm
  \<open>sha256\<close>.
\<close>

definition hex_digit :: "nat \<Rightarrow> char" where
  "hex_digit n = ''0123456789abcdef'' ! (n mod 16)"

fun hex_of :: "nat \<Rightarrow> nat \<Rightarrow> string" where
  "hex_of 0 n = []"
| "hex_of (Suc k) n = hex_of k (n div 16) @ [hex_digit n]"

definition hexdigest :: "nat \<Rightarrow> string" where
  "hexdigest n = hex_of 64 n"

type_synonym hash_cache = "string \<rightharpoonup> string"

text \<open>The reading loop of \<open>compute_file_hash\<close>; the result is what the hasher was fed.\<close>

function hash_loop :: "handle \<Rightarrow> int \<Rightarrow> bytes \<Rightarrow> os_error + bytes" where
  "hash_loop f chunk_size hasher =
     (case f_read f chunk_size of
        Inl e \<Rightarrow> Inl e
      | Inr (chunk, f') \<Rightarrow>
          if chunk = [] then Inr hasher
          else hash_loop f' chunk_size (hasher @ chunk))"
  by pat_completeness auto
termination
  by (relation "measure (\<lambda>(f, cs, acc). length (rest f))")
     (auto dest: f_read_shrinks)

declare hash_loop.simps [simp del]

text \<open>
  \<open>compute_file_hash\<close> returns the digest and the cache it leaves in \<open>self.hash_cache\<close>.
\<close>

definition compute_file_hash ::
  "(bytes \<Rightarrow> nat) \<Rightarrow> disk \<Rightarrow> hash_cache \<Rightarrow> string \<Rightarrow> int \<Rightarrow> string \<times> hash_cache" where
  "compute_file_hash H d cache filepath chunk_size =
     (case cache filepath of
        Some cached \<Rightarrow> (cached, cache)
      | None \<Rightarrow>
          (case open_rb d filepath of
             Inl e \<Rightarrow> ([], cache)
           | Inr f \<Rightarrow>
               (case hash_loop f chunk_size [] of
                  Inl e \<Rightarrow> ([], cache)
                | Inr fed \<Rightarrow>
                    let hash_value = hexdigest (H fed)
                    in (hash_value, cache(filepath \<mapsto> hash_value)))))"

definition compare_files_by_hash ::
  "(bytes \<Rightarrow> nat) \<Rightarrow> disk \<Rightarrow> hash_cache \<Rightarrow> string \<Rightarrow> string \<Rightarrow> bool \<times> hash_cache" where
  "compare_files_by_hash H d cache file1 file2 =
     (let (hash1, cache1) = compute_file_hash H d cache file1 8192;
          (hash2, cache2) = compute_file_hash H d cache1 file2 8192
      in (if hash1 = [] \<or> hash2 = [] then False else hash1 = hash2, cache2))"

section \<open>Grouping\<close>

text \<open>
  \<open>_group_identical_files_byte\<close> works on a Python set. The set is a duplicate-free
  list; the order in which the interpreter enumerates it is not fixed by the language, so
  each round of the loop enumerates the set in the order of a parameter \<open>rank\<close> (any
  order is the order of some \<open>rank\<close>). \<open>pop\<close> takes the first element of the
  enumeration and the \<open>for\<close> loop visits the others. \<open>same a b\<close> is the answer of
  \<open>compare_files_byte_by_byte(a, b)\<close>.
\<close>

function byte_group_loop ::
  "(string \<Rightarrow> string \<Rightarrow> bool) \<Rightarrow> (string list \<Rightarrow> string \<Rightarrow> nat) \<Rightarrow> string list \<Rightarrow>
   string list list \<Rightarrow> string list list" where
  "byte_group_loop same rank remaining groups =
     (case sort_key (rank remaining) remaining of
        [] \<Rightarrow> groups
      | current_file # others \<Rightarrow>
          let to_remove = filter (same current_file) others;
              current_group = current_file # to_remove
          in byte_group_loop same rank (filter (\<lambda>p. p \<notin> set to_remove) others)
               (if length current_group > 1 then groups @ [current_group] else groups))"
  by pat_completeness auto
termination
proof (relation "measure (\<lambda>(same, rank, remaining, groups). length remaining)", goal_cases)
  case 1
  show ?case by simp
next
  case (2 same rank remaining groups current_file others to_remove current_group)
  have "length (sort_key (rank remaining) remaining) = Suc (length others)"
    using 2(1) by simp
  then have "length others < length remaining"
    by simp
  then show ?case
    by (simp add: le_less_trans [OF length_filter_le])
qed

declare byte_group_loop.simps [simp del]

definition group_identical_files_byte ::
  "disk \<Rightarrow> (string list \<Rightarrow> string \<Rightarrow> nat) \<Rightarrow> string list \<Rightarrow> string list list" where
  "group_identical_files_byte d rank paths =
     (if paths = [] then []
      else byte_group_loop (\<lambda>a b. compare_files_byte_by_byte d a b 8192) rank (remdups paths) [])"

text \<open>
  \<open>hash_groups\<close> is a dictionary, kept in insertion order:
  \<open>AList.map_default h [p] (\<lambda>g. g @ [p])\<close> is
  \<open>if h not in hash_groups: hash_groups[h] = []\<close> followed by \<open>hash_groups[h].append(p)\<close>.
\<close>

fun hash_group_loop ::
  "(bytes \<Rightarrow> nat) \<Rightarrow> disk \<Rightarrow> string list \<Rightarrow> hash_cache \<Rightarrow> (string \<times> string list) list \<Rightarrow>
   (string \<times> string list) list \<times> hash_cache" where
  "hash_group_loop H d [] cache hash_groups = (hash_groups, cache)"
| "hash_group_loop H d (filepath # paths) cache hash_groups =
     (let (file_hash, cache') = compute_file_hash H d cache filepath 8192
      in hash_group_loop H d paths cache'
           (if file_hash \<noteq> []
            then AList.map_default file_hash [filepath] (\<lambda>g. g @ [filepath]) hash_groups
            else hash_groups))"

definition group_identical_files_hash ::
  "(bytes \<Rightarrow> nat) \<Rightarrow> disk \<Rightarrow> hash_cache \<Rightarrow> string list \<Rightarrow> string list list \<times> hash_cache" where
  "group_identical_files_hash H d cache paths =
     (if paths = [] then ([], cache)
      else
        let (hash_groups, cache') = hash_group_loop H d paths cache []
        in (filter (\<lambda>group. length group > 1) (map snd hash_groups), cache'))"

text \<open>No path in two groups of a list of groups.\<close>

fun groups_disjoint :: "string list list \<Rightarrow> bool" where
  "groups_disjoint [] = True"
| "groups_disjoint (g # gs) = (list_all (\<lambda>h. list_all (\<lambda>p. p \<notin> set h) g) gs \<and> groups_disjoint gs)"

section \<open>Candidates and classification\<close>

text \<open>
  A dictionary is an association list in insertion order; \<open>AList.update k v\<close> is the
  assignment \<open>dict[k] = v\<close>. The key of the index is \<open>(filename, extension, size)\<close>.
\<close>

type_synonym candidate_key = "string \<times> string \<times> int"

type_synonym file_index = "(candidate_key \<times> string list) list"

type_synonym grouping = "(candidate_key \<times> string list list) list"

definition find_candidates_by_name_and_size :: "file_index \<Rightarrow> int \<Rightarrow> file_index" where
  "find_candidates_by_name_and_size file_index min_file_size =
     fold (\<lambda>((fname, ext, size), paths) candidates.
             if size < min_file_size then candidates
             else if length paths > 1 then AList.update (fname, ext, size) paths candidates
             else candidates)
       file_index []"

definition find_true_duplicates_byte_comparison ::
  "disk \<Rightarrow> (string list \<Rightarrow> string \<Rightarrow> nat) \<Rightarrow> file_index \<Rightarrow> int \<Rightarrow> grouping" where
  "find_true_duplicates_byte_comparison d rank file_index min_file_size =
     fold (\<lambda>(key, paths) true_duplicates.
             let groups = group_identical_files_byte d rank paths
             in if groups \<noteq> [] then AList.update key groups true_duplicates
                else true_duplicates)
       (find_candidates_by_name_and_size file_index min_file_size) []"

fun hash_comparison_loop ::
  "(bytes \<Rightarrow> nat) \<Rightarrow> disk \<Rightarrow> file_index \<Rightarrow> hash_cache \<Rightarrow> grouping \<Rightarrow> grouping \<times> hash_cache" where
  "hash_comparison_loop H d [] cache true_duplicates = (true_duplicates, cache)"
| "hash_comparison_loop H d ((key, paths) # items) cache true_duplicates =
     (let (groups, cache') = group_identical_files_hash H d cache paths
      in hash_comparison_loop H d items cache'
           (if groups \<noteq> [] then AList.update key groups true_duplicates
            else true_duplicates))"

definition find_true_duplicates_hash_comparison ::
  "(bytes \<Rightarrow> nat) \<Rightarrow> disk \<Rightarrow> hash_cache \<Rightarrow> file_index \<Rightarrow> int \<Rightarrow> grouping \<times> hash_cache" where
  "find_true_duplicates_hash_comparison H d cache file_index min_file_size =
     hash_comparison_loop H d (find_candidates_by_name_and_size file_index min_file_size) cache []"

text \<open>The loop of \<open>main\<close> that collects the candidates that are not duplicates.\<close>

definition find_differences :: "file_index \<Rightarrow> grouping \<Rightarrow> grouping" where
  "find_differences candidates true_dups =
     fold (\<lambda>(key, paths) differences.
             case map_of true_dups key of
               None \<Rightarrow> AList.update key (map (\<lambda>path. [path]) paths) differences
             | Some groups \<Rightarrow>
                 let found_paths = set (concat groups);
                     remaining = filter (\<lambda>p. p \<notin> found_paths) paths
                 in if remaining \<noteq> []
                    then AList.update key (map (\<lambda>path. [path]) remaining) differences
                    else differences)
       candidates []"

datatype comparison_method = Byte | Hash

text \<open>
  \<open>main\<close> up to the call of \<open>save_results_to_json\<close>; the finder starts with an empty
  \<open>hash_cache\<close>.
\<close>

definition classify ::
  "comparison_method \<Rightarrow> (bytes \<Rightarrow> nat) \<Rightarrow> disk \<Rightarrow> (string list \<Rightarrow> string \<Rightarrow> nat) \<Rightarrow> file_index \<Rightarrow> int \<Rightarrow>
   grouping \<times> grouping" where
  "classify m H d rank file_index min_file_size =
     (let candidates = find_candidates_by_name_and_size file_index min_file_size;
          true_dups =
            (case m of
               Byte \<Rightarrow> find_true_duplicates_byte_comparison d rank file_index min_file_size
             | Hash \<Rightarrow>
                 fst (find_true_duplicates_hash_comparison H d Map.empty file_index min_file_size))
      in (true_dups, find_differences candidates true_dups))"

section \<open>The persisted records\<close>

text \<open>
  The fields of a record are the keys of the JSON object. A duplicate record is a
  difference record with one more key, \<open>wasted_space_bytes\<close>.
\<close>

record group_record =
  filename :: string
  extension :: string
  size_bytes :: int
  group_id :: int
  file_count :: int
  paths :: "string list"
  dates :: "string list"
  newest_index :: int

record duplicate_record = group_record +
  wasted_space_bytes :: int

record document_head =
  total_groups :: int

record duplicates_document = document_head +
  total_wasted_space_bytes :: int
  duplicates :: "duplicate_record list"

record differences_document = document_head +
  differences :: "group_record list"

text \<open>
  \<open>mtime p\<close> is the modification time of \<open>p\<close> in ISO format, or \<open>None\<close> when \<open>stat\<close>
  raises \<open>OSError\<close>.
\<close>

definition get_file_date :: "(string \<Rightarrow> string option) \<Rightarrow> string \<Rightarrow> string" where
  "get_file_date mtime filepath = (case mtime filepath of None \<Rightarrow> [] | Some stamp \<Rightarrow> stamp)"

text \<open>
  \<open>max(ds)\<close> and \<open>ds.index(x)\<close>. Python raises \<open>ValueError\<close> for \<open>max([])\<close> and for
  an \<open>x\<close> that is not in the list; the program reaches neither.
\<close>

fun max_list :: "string list \<Rightarrow> string" where
  "max_list [] = []"
| "max_list (x # xs) = fold max xs x"

fun list_index :: "string list \<Rightarrow> string \<Rightarrow> nat" where
  "list_index [] x = 0"
| "list_index (y # ys) x = (if y = x then 0 else Suc (list_index ys x))"

text \<open>\<open>dates.index(max(dates)) if dates and any(dates) else 0\<close>\<close>

definition newest_index_of :: "string list \<Rightarrow> int" where
  "newest_index_of ds =
     (if ds \<noteq> [] \<and> list_ex (\<lambda>d. d \<noteq> []) ds then int (list_index ds (max_list ds)) else 0)"

definition difference_entry ::
  "(string \<Rightarrow> string option) \<Rightarrow> candidate_key \<Rightarrow> nat \<Rightarrow> string list \<Rightarrow> group_record" where
  "difference_entry mtime key group_idx grp =
     (let (fname, ext, size) = key;
          sorted_group = sort grp;
          ds = map (get_file_date mtime) sorted_group
      in \<lparr>filename = fname,
          extension = (if ext \<noteq> [] then ext else []),
          size_bytes = size,
          group_id = int group_idx,
          file_count = int (length sorted_group),
          paths = sorted_group,
          dates = ds,
          newest_index = newest_index_of ds\<rparr>)"

definition duplicate_entry ::
  "(string \<Rightarrow> string option) \<Rightarrow> candidate_key \<Rightarrow> nat \<Rightarrow> string list \<Rightarrow> duplicate_record" where
  "duplicate_entry mtime key group_idx grp =
     (let (fname, ext, size) = key;
          sorted_group = sort grp;
          ds = map (get_file_date mtime) sorted_group
      in \<lparr>filename = fname,
          extension = (if ext \<noteq> [] then ext else []),
          size_bytes = size,
          group_id = int group_idx,
          file_count = int (length sorted_group),
          paths = sorted_group,
          dates = ds,
          newest_index = newest_index_of ds,
          wasted_space_bytes = size * (int (length sorted_group) - 1)\<rparr>)"

definition duplicates_data_of :: "(string \<Rightarrow> string option) \<Rightarrow> grouping \<Rightarrow> duplicate_record list" where
  "duplicates_data_of mtime true_duplicates =
     concat (map (\<lambda>(key, groups).
                    map (\<lambda>(group_idx, grp). duplicate_entry mtime key group_idx grp)
                      (enumerate 1 groups))
               (sort_key fst true_duplicates))"

definition differences_data_of :: "(string \<Rightarrow> string option) \<Rightarrow> grouping \<Rightarrow> group_record list" where
  "differences_data_of mtime diffs =
     concat (map (\<lambda>(key, groups).
                    map (\<lambda>(group_idx, grp). difference_entry mtime key group_idx grp)
                      (enumerate 1 groups))
               (sort_key fst diffs))"

text \<open>
  \<open>save_results_to_json\<close>: the two documents it writes (the constant strings
  \<open>method\<close>, \<open>note\<close> and \<open>description\<close> are left out).
\<close>

definition save_results_to_json ::
  "(string \<Rightarrow> string option) \<Rightarrow> grouping \<Rightarrow> grouping \<Rightarrow> duplicates_document \<times> differences_document" where
  "save_results_to_json mtime true_duplicates diffs =
     (let duplicates_data = duplicates_data_of mtime true_duplicates;
          differences_data = differences_data_of mtime diffs
      in (\<lparr>total_groups = int (length duplicates_data),
           total_wasted_space_bytes = sum_list (map wasted_space_bytes duplicates_data),
           duplicates = duplicates_data\<rparr>,
          \<lparr>total_groups = int (length differences_data),
           differences = differences_data\<rparr>))"

definition main_step2 ::
  "comparison_method \<Rightarrow> (bytes \<Rightarrow> nat) \<Rightarrow> disk \<Rightarrow> (string list \<Rightarrow> string \<Rightarrow> nat) \<Rightarrow> (string \<Rightarrow> string option) \<Rightarrow>
   file_index \<Rightarrow> int \<Rightarrow> duplicates_document \<times> differences_document" where
  "main_step2 m H d rank mtime file_index min_file_size =
     (let (true_dups, diffs) = classify m H d rank file_index min_file_size
      in save_results_to_json mtime true_dups diffs)"

section \<open>The file system changed by the destructive operations\<close>

text \<open>
  The operating system is not part of the program. In this model a path names at most
  one regular file or one directory, and paths are compared as strings (links, and two
  spellings of one path, are outside the model). \<open>denied w p = Some e\<close>: a call that
  changes \<open>p\<close> raises \<open>e\<close>. \<open>calls\<close> is the trace of the changing calls made so far,
  failed ones included.
\<close>

datatype fs_call = Remove string | MakeDirs string | Copy2 string string

record world =
  files :: "string \<rightharpoonup> bytes"
  dirs :: "string set"
  denied :: "string \<Rightarrow> os_error option"
  calls :: "fs_call list"

definition os_path_exists :: "world \<Rightarrow> string \<Rightarrow> bool" where
  "os_path_exists w p = (files w p \<noteq> None \<or> p \<in> dirs w)"


text \<open>\<open>os.path.dirname\<close>, \<open>os.path.basename\<close> and \<open>os.path.join\<close> of \<open>posixpath\<close>.\<close>

definition os_path_dirname :: "string \<Rightarrow> string" where
  "os_path_dirname p =
     (let head = rev (dropWhile (\<lambda>c. c \<noteq> CHR ''/'') (rev p))
      in if head \<noteq> [] \<and> \<not> list_all (\<lambda>c. c = CHR ''/'') head
         then rev (dropWhile (\<lambda>c. c = CHR ''/'') (rev head))
         else head)"

definition os_path_basename :: "string \<Rightarrow> string" where
  "os_path_basename p = rev (takeWhile (\<lambda>c. c \<noteq> CHR ''/'') (rev p))"

definition os_path_join :: "string \<Rightarrow> string \<Rightarrow> string" where
  "os_path_join a b =
     (if b \<noteq> [] \<and> hd b = CHR ''/'' then b
      else if a = [] \<or> last a = CHR ''/'' then a @ b
      else a @ ''/'' @ b)"

text \<open>The directory \<open>d\<close> and the directories above it, as \<open>os.makedirs\<close> creates them.\<close>

definition ancestors :: "string \<Rightarrow> string list" where
  "ancestors d = map (\<lambda>k. take k d) (filter (\<lambda>k. d ! k = CHR ''/'') [1..<length d]) @ [d]"

definition os_makedirs :: "world \<Rightarrow> string \<Rightarrow> world \<times> os_error option" where
  "os_makedirs w d =
     (let w' = w\<lparr>calls := calls w @ [MakeDirs d]\<rparr>
      in case denied w d of
           Some e \<Rightarrow> (w', Some e)
         | None \<Rightarrow>
             if list_ex (\<lambda>a. files w a \<noteq> None) (ancestors d)
             then (w', Some (OSError ''File exists''))
             else (w'\<lparr>dirs := dirs w \<union> set (ancestors d)\<rparr>, None))"

text \<open>
  \<open>shutil.copy2(src, dst)\<close>: the bytes of \<open>src\<close> are written to \<open>dst\<close> (into it,
  under the name of \<open>src\<close>, when \<open>dst\<close> is a directory). The metadata copied with
  them is not modelled.
\<close>

definition shutil_copy2 :: "world \<Rightarrow> string \<Rightarrow> string \<Rightarrow> world \<times> os_error option" where
  "shutil_copy2 w src dst =
     (let w' = w\<lparr>calls := calls w @ [Copy2 src dst]\<rparr>
      in case denied w dst of
           Some e \<Rightarrow> (w', Some e)
         | None \<Rightarrow>
             (case files w src of
                None \<Rightarrow> (w', Some (OSError ''No such file or directory''))
              | Some b \<Rightarrow>
                  let target = (if dst \<in> dirs w then os_path_join dst (os_path_basename src)
                                else dst);
                      parent = os_path_dirname target
                  in if target = src then (w', Some (OSError ''are the same file''))
                     else if target \<in> dirs w then (w', Some (OSError ''Is a directory''))
                     else if parent \<noteq> [] \<and> parent \<notin> dirs w
                     then (w', Some (OSError ''No such file or directory''))
                     else (w'\<lparr>files := (files w)(target \<mapsto> b)\<rparr>, None)))"

section \<open>Python list and string operations\<close>

text \<open>\<open>xs[i]\<close>: a negative index counts from the end; out of range raises.\<close>

definition py_index :: "'a list \<Rightarrow> int \<Rightarrow> py_exc + 'a" where
  "py_index xs i =
     (if 0 \<le> i \<and> i < int (length xs) then Inr (xs ! nat i)
      else if i < 0 \<and> - int (length xs) \<le> i then Inr (xs ! nat (int (length xs) + i))
      else Inl IndexError)"

text \<open>
  \<open>str.strip\<close>, \<open>str.lower\<close> and the substring test \<open>s in t\<close>, on ASCII text (white
  space is what \<open>str.isspace\<close> accepts below code 128).
\<close>

definition is_space :: "char \<Rightarrow> bool" where
  "is_space c = (let n = (of_char c :: nat) in (9 \<le> n \<and> n \<le> 13) \<or> (28 \<le> n \<and> n \<le> 32))"

definition py_strip :: "string \<Rightarrow> string" where
  "py_strip s = rev (dropWhile is_space (rev (dropWhile is_space s)))"

definition lower_char :: "char \<Rightarrow> char" where
  "lower_char c =
     (let n = (of_char c :: nat) in if 65 \<le> n \<and> n \<le> 90 then char_of (n + 32) else c)"

definition py_lower :: "string \<Rightarrow> string" where
  "py_lower s = map lower_char s"

fun is_substring :: "string \<Rightarrow> string \<Rightarrow> bool" where
  "is_substring s [] = (s = [])"
| "is_substring s (c # cs) = (take (length s) (c # cs) = s \<or> is_substring s cs)"

section \<open>The operation log\<close>

text \<open>
  A line of the log is the text of the message that \<open>_log\<close> is called with, as the
  source writes it, and the values it interpolates, in order. The time stamp that
  \<open>_log\<close> puts before the message, the formatting of the numbers and the echo to the
  console are not modelled.
\<close>

datatype log_arg = Str string | Num int | Flag bool | Opt "string option"

datatype log_line = Msg string "log_arg list"

definition rule :: log_line where
  "rule = Msg (replicate 70 (CHR ''='')) []"

definition rule_nl :: log_line where
  "rule_nl = Msg (CHR ''\<newline>'' # replicate 70 (CHR ''='')) []"

section \<open>Deletion\<close>

text \<open>
  The fields of \<open>DuplicateDeleter\<close> that its methods read: \<open>duplicates_data\<close> is the
  list under the key \<open>duplicates\<close> of the loaded document (a missing key of a record
  reads as its default). \<open>DuplicateRecoverer\<close> has the same fields and two more.
\<close>

record deleter =
  dry_run :: bool
  duplicates_data :: "duplicate_record list"
  log_lines :: "log_line list"

record recoverer = deleter +
  search_string :: "string option"
  recover_all :: bool

definition do_log :: "'a deleter_scheme \<Rightarrow> log_line \<Rightarrow> 'a deleter_scheme" where
  "do_log s message = s\<lparr>log_lines := log_lines s @ [message]\<rparr>"

text \<open>Several calls of \<open>_log\<close> in a row.\<close>

definition logs :: "'a deleter_scheme \<Rightarrow> log_line list \<Rightarrow> 'a deleter_scheme" where
  "logs s messages = fold (\<lambda>message s'. do_log s' message) messages s"

definition DuplicateDeleter :: "string \<Rightarrow> duplicate_record list \<Rightarrow> bool \<Rightarrow> deleter" where
  "DuplicateDeleter json_file loaded dry =
     logs \<lparr>dry_run = dry, duplicates_data = loaded, log_lines = []\<rparr>
       [Msg ''DuplicateDeleter initialized'' [], Msg ''Dry-run mode: {dry_run}'' [Flag dry],
        Msg ''JSON file: {json_file}'' [Str json_file]]"

definition full_filename :: "'a group_record_scheme \<Rightarrow> string" where
  "full_filename g = filename g @ (if extension g \<noteq> [] then ''.'' @ extension g else [])"



text \<open>The line \<open>Modified: dates[newest_index]\<close>, logged \<open>if newest_index < len(dates)\<close>.\<close>

definition log_modified :: "'a deleter_scheme \<Rightarrow> 'b group_record_scheme \<Rightarrow> py_exc + 'a deleter_scheme" where
  "log_modified s g =
     (if newest_index g < int (length (dates g))
      then (case py_index (dates g) (newest_index g) of
              Inl e \<Rightarrow> Inl e
            | Inr date \<Rightarrow> Inr (do_log s (Msg ''    Modified: {dates[newest_index]}'' [Str date])))
      else Inr s)"








section \<open>Recovery\<close>

definition DuplicateRecoverer ::
  "string \<Rightarrow> duplicate_record list \<Rightarrow> string option \<Rightarrow> bool \<Rightarrow> bool \<Rightarrow> recoverer" where
  "DuplicateRecoverer json_file loaded search dry all =
     logs \<lparr>dry_run = dry, duplicates_data = loaded, log_lines = [],
           search_string = (case search of
                              None \<Rightarrow> None
                            | Some str \<Rightarrow> if str \<noteq> [] then Some (py_lower str) else None),
           recover_all = all\<rparr>
       [Msg ''DuplicateRecoverer initialized'' [], Msg ''Dry-run mode: {dry_run}'' [Flag dry],
        Msg ''JSON file: {json_file}'' [Str json_file],
        if all then Msg ''Mode: Recover all files'' []
        else Msg ''Search string: {search_string}'' [Opt search]]"

text \<open>
  \<open>_filter_matching_groups\<close>. With \<open>search_string = None\<close> the test
  \<open>self.search_string in path.lower()\<close> raises \<open>TypeError\<close> at the first path it meets.
\<close>

definition filter_matching_groups :: "recoverer \<Rightarrow> py_exc + duplicate_record list" where
  "filter_matching_groups r =
     (if recover_all r then Inr (duplicates_data r)
      else
        (case search_string r of
           None \<Rightarrow>
             if list_all (\<lambda>g. paths g = []) (duplicates_data r) then Inr [] else Inl TypeError
         | Some str \<Rightarrow>
             Inr (filter (\<lambda>g. list_ex (\<lambda>path. is_substring str (py_lower path)) (paths g))
                    (duplicates_data r))))"

text \<open>
  \<open>self.recover_all or self.search_string in path.lower()\<close>, for a path of a matching
  group (there are no matching groups when \<open>search_string\<close> is \<open>None\<close> and \<open>recover_all\<close> is
  false).
\<close>

definition selected :: "recoverer \<Rightarrow> string \<Rightarrow> bool" where
  "selected r path =
     (recover_all r \<or>
      (case search_string r of
         None \<Rightarrow> False
       | Some str \<Rightarrow> is_substring str (py_lower path)))"

definition files_to_recover :: "recoverer \<Rightarrow> duplicate_record \<Rightarrow> (string \<times> string) list" where
  "files_to_recover r g =
     map (\<lambda>(i, path). (path, if i < length (dates g) then dates g ! i else []))
       (filter (\<lambda>(i, path). int i \<noteq> newest_index g \<and> selected r path) (enumerate 0 (paths g)))"

definition recover_listing :: "(string \<times> string) list \<Rightarrow> log_line list" where
  "recover_listing entries =
     concat (map (\<lambda>(path, date). Msg ''    - {path}'' [Str path] #
                    (if date \<noteq> [] then [Msg ''      Original date: {date}'' [Str date]] else []))
               entries)"

fun preview_recoveries_loop ::
  "nat \<Rightarrow> duplicate_record list \<Rightarrow> recoverer \<times> nat \<times> int \<Rightarrow> py_exc + recoverer \<times> nat \<times> int" where
  "preview_recoveries_loop idx [] st = Inr st"
| "preview_recoveries_loop idx (g # gs) (r, total_files, total_space) =
     (let r1 = do_log r (Msg ''\<newline>Group {idx}: {full_filename} ({size_bytes} bytes)''
                          [Num (int idx), Str (full_filename g), Num (size_bytes g)])
      in case py_index (paths g) (newest_index g) of
           Inl e \<Rightarrow> Inl e
         | Inr source \<Rightarrow>
             (case log_modified (do_log r1 (Msg ''  Source (newest): {paths[newest_index]}'' [Str source])) g of
                Inl e \<Rightarrow> Inl e
              | Inr r2 \<Rightarrow>
                  let entries = files_to_recover r g;
                      r3 = (if entries \<noteq> []
                            then logs (do_log r2 (Msg ''  Recovering ({len(files_to_recover)} copies):''
                                              [Num (int (length entries))]))
                                   (recover_listing entries)
                            else r2)
                  in preview_recoveries_loop (Suc idx) gs
                       (r3, total_files + length entries,
                        total_space + size_bytes g * int (length entries))))"

definition preview_recoveries :: "recoverer \<Rightarrow> py_exc + recoverer \<times> nat \<times> int" where
  "preview_recoveries r =
     (let r1 = logs r [rule_nl, Msg ''PREVIEW: Files that would be recovered'' [], rule]
      in case filter_matching_groups r of
           Inl e \<Rightarrow> Inl e
         | Inr matching_groups \<Rightarrow>
             if matching_groups = []
             then Inr (logs r1 [if recover_all r then Msg ''\<newline>No duplicate groups found'' []
                                else Msg ''\<newline>No duplicate groups match search string: {search_string}''
                                       [Opt (search_string r)],
                                rule], 0, 0)
             else
               (case preview_recoveries_loop 1 matching_groups (r1, 0, 0) of
                  Inl e \<Rightarrow> Inl e
                | Inr (r2, total_files, total_space) \<Rightarrow>
                    Inr (logs r2 [rule_nl,
                                  Msg ''SUMMARY: {total_files} files would be recovered''
                                    [Num (int total_files)],
                                  Msg ''Total space to restore: {total_space:,} bytes ({total_space / (1024**2):.2f} MB)''
                                    [Num total_space],
                                  rule],
                         total_files, total_space)))"

record rec_acc =
  recovered_count :: nat
  space_restored :: int
  recovered_files :: "string list"
  failed_recoveries :: "(string \<times> string) list"

text \<open>The two \<open>except\<close> clauses of the loop body.\<close>

definition recovery_failed ::
  "string \<Rightarrow> os_error \<Rightarrow> recoverer \<times> world \<times> rec_acc \<Rightarrow> recoverer \<times> world \<times> rec_acc" where
  "recovery_failed path err st =
     (case st of (r, w, acc) \<Rightarrow>
        (case err of
           PermissionError \<Rightarrow>
             (do_log r (Msg ''  ERROR (permission): {path}'' [Str path]), w,
              acc\<lparr>failed_recoveries := failed_recoveries acc @ [(path, ''Permission denied'')]\<rparr>)
         | OSError e \<Rightarrow>
             (do_log r (Msg ''  ERROR ({e}): {path}'' [Str e, Str path]), w,
              acc\<lparr>failed_recoveries := failed_recoveries acc @ [(path, e)]\<rparr>)))"

text \<open>
  The body of the loop over \<open>enumerate(paths)\<close> in \<open>recover_duplicates\<close> (the progress
  bar is not modelled).
\<close>

fun recover_path ::
  "int \<Rightarrow> int \<Rightarrow> string \<Rightarrow> nat \<times> string \<Rightarrow> recoverer \<times> world \<times> rec_acc \<Rightarrow>
   recoverer \<times> world \<times> rec_acc" where
  "recover_path bytes newest source_path (i, path) (r, w, acc) =
     (if int i \<noteq> newest \<and> selected r path
      then
        let parent_dir = os_path_dirname path;
            (made, r1, w1) =
              (if parent_dir \<noteq> [] \<and> \<not> os_path_exists w parent_dir
               then (case os_makedirs w parent_dir of
                       (w', None) \<Rightarrow> (None, do_log r (Msg ''  MKDIR: {parent_dir}'' [Str parent_dir]), w')
                     | (w', Some err) \<Rightarrow> (Some err, r, w'))
               else (None, r, w))
        in case made of
             Some err \<Rightarrow> recovery_failed path err (r1, w1, acc)
           | None \<Rightarrow>
               (case shutil_copy2 w1 source_path path of
                  (w2, None) \<Rightarrow>
                    (do_log r1 (Msg ''  RECOVERED: {path}'' [Str path]), w2,
                     acc\<lparr>recovered_count := recovered_count acc + 1,
                         space_restored := space_restored acc + bytes,
                         recovered_files := recovered_files acc @ [path]\<rparr>)
                | (w2, Some err) \<Rightarrow> recovery_failed path err (r1, w2, acc))
      else (r, w, acc))"

text \<open>The loop over the matching records.\<close>

fun recover_groups ::
  "nat \<Rightarrow> duplicate_record list \<Rightarrow> recoverer \<times> world \<times> rec_acc \<Rightarrow>
   world \<times> py_exc + recoverer \<times> world \<times> rec_acc" where
  "recover_groups idx [] st = Inr st"
| "recover_groups idx (g # gs) (r, w, acc) =
     (case py_index (paths g) (newest_index g) of
        Inl e \<Rightarrow> Inl (w, e)
      | Inr source_path \<Rightarrow>
          if \<not> os_path_exists w source_path
          then recover_groups (Suc idx) gs
                 (logs r [Msg ''\<newline>Group {idx}: {full_filename}'' [Num (int idx), Str (full_filename g)],
                         Msg ''  ERROR: Source file not found: {source_path}'' [Str source_path]],
                  w, acc)
          else recover_groups (Suc idx) gs
                 (fold (recover_path (size_bytes g) (newest_index g) source_path)
                    (enumerate 0 (paths g))
                    (logs r [Msg ''\<newline>Group {idx}: {full_filename}''
                               [Num (int idx), Str (full_filename g)],
                             Msg ''  Source: {source_path}'' [Str source_path]], w, acc)))"

definition execute_recoveries ::
  "recoverer \<Rightarrow> world \<Rightarrow> world \<times> (py_exc + recoverer \<times> nat \<times> int \<times> string list)" where
  "execute_recoveries r w =
     (case filter_matching_groups r of
        Inl e \<Rightarrow> (w, Inl e)
      | Inr matching_groups \<Rightarrow>
          (case recover_groups 1 matching_groups
                  (logs r [rule_nl, Msg ''EXECUTING: Recovering duplicate files'' [], rule], w,
                   \<lparr>recovered_count = 0, space_restored = 0, recovered_files = [],
                    failed_recoveries = []\<rparr>) of
             Inl (w', e) \<Rightarrow> (w', Inl e)
           | Inr (r', w', acc) \<Rightarrow>
               let r1 = logs r' [rule_nl, Msg ''SUMMARY:'' [],
                                 Msg ''  Files recovered: {recovered_count}''
                                   [Num (int (recovered_count acc))],
                                 Msg ''  Space restored: {space_restored:,} bytes ({space_restored / (1024**2):.2f} MB)''
                                   [Num (space_restored acc)]];
                   r2 = (if failed_recoveries acc \<noteq> []
                         then logs (do_log r1 (Msg ''  Failed recoveries: {len(failed_recoveries)}''
                                                [Num (int (length (failed_recoveries acc)))]))
                                (map (\<lambda>(path, error). Msg ''    - {path}: {error}'' [Str path, Str error])
                                   (failed_recoveries acc))
                         else r1)
               in (w', Inr (do_log r2 rule, recovered_count acc, space_restored acc,
                            recovered_files acc))))"

definition recover_duplicates ::
  "recoverer \<Rightarrow> world \<Rightarrow> bool \<Rightarrow> (world \<Rightarrow> string option) \<Rightarrow>
   world \<times> (py_exc + recoverer \<times> nat \<times> int \<times> string list)" where
  "recover_duplicates r w confirm ask =
     (if dry_run r
      then
        (case preview_recoveries (do_log r (Msg ''\<newline>DRY-RUN MODE: No files will be recovered'' [])) of
           Inl e \<Rightarrow> (w, Inl e)
         | Inr (r', preview_files, preview_space) \<Rightarrow>
             (w, Inr (r', preview_files, preview_space, [])))
      else if confirm
      then
        (case preview_recoveries r of
           Inl e \<Rightarrow> (w, Inl e)
         | Inr (r', preview_files, preview_space) \<Rightarrow>
             (case ask w of
                None \<Rightarrow> (w, Inl EOFError)
              | Some response \<Rightarrow>
                  if py_lower (py_strip response) \<noteq> ''yes''
                  then (w, Inr (do_log r' (Msg ''\<newline>Recovery cancelled by user'' []), 0, 0, []))
                  else execute_recoveries r' w))
      else execute_recoveries r w)"

section \<open>Auxiliary notions for the statements and proofs\<close>

text \<open>
  Any sequence of later \<open>compute_file_hash\<close> calls of the same run, each on the
  file system as it is at that time: the cache they leave.
\<close>

fun run_calls :: "(bytes \<Rightarrow> nat) \<Rightarrow> (disk \<times> string) list \<Rightarrow> hash_cache \<Rightarrow> hash_cache" where
  "run_calls H [] cache = cache"
| "run_calls H ((d, q) # later) cache = run_calls H later (snd (compute_file_hash H d cache q 8192))"

text \<open>
  The invariant of \<open>hash_groups\<close>: its keys are distinct and every path in the group of
  a digest has that digest in the cache.
\<close>

definition grouped_by_cache :: "hash_cache \<Rightarrow> (string \<times> string list) list \<Rightarrow> bool" where
  "grouped_by_cache cache hg =
     (distinct (map fst hg) \<and> (\<forall>h g p. (h, g) \<in> set hg \<and> p \<in> set g \<longrightarrow> cache p = Some h))"

text \<open>
  The shape of a persisted record: \<open>paths\<close> and \<open>dates\<close> have \<open>file_count\<close> entries,
  \<open>dates\<close> holds the date of each path in the same order, and \<open>paths\<close> is in ascending
  order.
\<close>

definition record_shape_ok :: "(string \<Rightarrow> string option) \<Rightarrow> 'a group_record_scheme \<Rightarrow> bool" where
  "record_shape_ok mtime r =
     (int (length (paths r)) = file_count r \<and> int (length (dates r)) = file_count r \<and>
      dates r = map (get_file_date mtime) (paths r) \<and> sorted (paths r))"

text \<open>
  \<open>newest_index\<close> as the specification wants it: an index into the record; where some
  date is not empty, the first position of the greatest date; 0 where all are empty.
\<close>

definition newest_ok :: "'a group_record_scheme \<Rightarrow> bool" where
  "newest_ok r =
     (0 \<le> newest_index r \<and> newest_index r < file_count r \<and>
      (if list_ex (\<lambda>d. d \<noteq> []) (dates r)
       then list_all (\<lambda>d. d \<le> dates r ! nat (newest_index r)) (dates r) \<and>
            list_all (\<lambda>j. dates r ! j \<noteq> dates r ! nat (newest_index r)) [0..<nat (newest_index r)]
       else newest_index r = 0))"

text \<open>Notions used in the proofs about the classification.\<close>

definition all_groups :: "(string list \<Rightarrow> bool) \<Rightarrow> grouping \<Rightarrow> bool" where
  "all_groups P td = (\<forall>(k, gs)\<in>set td. \<forall>g\<in>set gs. P g)"

definition cache_sound :: "disk \<Rightarrow> hash_cache \<Rightarrow> bool" where
  "cache_sound d cache = (\<forall>p h. cache p = Some h \<longrightarrow> (\<exists>b. read_to_eof d p 8192 = Inr b))"

definition readable :: "disk \<Rightarrow> string list \<Rightarrow> bool" where
  "readable d g = (\<forall>q\<in>set g. \<exists>b. read_to_eof d q 8192 = Inr b)"

text \<open>The body of the loop in \<open>find_differences\<close>.\<close>

definition diff_step :: "grouping \<Rightarrow> candidate_key \<times> string list \<Rightarrow> grouping \<Rightarrow> grouping" where
  "diff_step td = (\<lambda>(key, paths) differences.
             case map_of td key of
               None \<Rightarrow> AList.update key (map (\<lambda>path. [path]) paths) differences
             | Some groups \<Rightarrow>
                 let found_paths = set (concat groups);
                     remaining = filter (\<lambda>p. p \<notin> found_paths) paths
                 in if remaining \<noteq> []
                    then AList.update key (map (\<lambda>path. [path]) remaining) differences
                    else differences)"






text \<open>
  The paths that a log lists: those of its lines \<open>f"    - {path}"\<close>, the lines that
  \<open>preview_deletions\<close> writes for the files to delete.
\<close>

fun listed_path :: "log_line \<Rightarrow> string list" where
  "listed_path (Msg text [Str p]) = (if text = ''    - {path}'' then [p] else [])"
| "listed_path l = []"

definition listed_paths :: "log_line list \<Rightarrow> string list" where
  "listed_paths ls = concat (map listed_path ls)"

section \<open>Example inputs\<close>

definition example_disk :: disk where
  "example_disk p =
     (if p = ''a'' then \<lparr>open_error = None, content = ''hello'', read_error_at = None\<rparr>
      else if p = ''b'' then \<lparr>open_error = None, content = ''hello'', read_error_at = None\<rparr>
      else if p = ''c'' then \<lparr>open_error = None, content = ''help!'', read_error_at = None\<rparr>
      else if p = ''d'' then \<lparr>open_error = None, content = ''hello'', read_error_at = Some 1\<rparr>
      else \<lparr>open_error = Some (OSError ''No such file''), content = [], read_error_at = None\<rparr>)"

definition example_H :: "bytes \<Rightarrow> nat" where
  "example_H b = sum_list (map of_char b)"

definition unreadable_disk :: disk where
  "unreadable_disk p = \<lparr>open_error = Some PermissionError, content = [], read_error_at = None\<rparr>"

definition example_index :: file_index where
  "example_index =
     [((''photo'', ''jpg'', 5), [''b'', ''a'', ''c'', ''d'']), ((''notes'', '''', 5), [''e''])]"

definition example_mtime :: "string \<Rightarrow> string option" where
  "example_mtime p =
     (if p = ''a'' then Some ''2020-01-01T00:00:00''
      else if p = ''b'' then Some ''2021-01-01T00:00:00''
      else None)"

definition example_record :: duplicate_record where
  "example_record =
     \<lparr>filename = ''photo'', extension = ''jpg'', size_bytes = 5, group_id = 1,
      file_count = 2, paths = [''a'', ''b''],
      dates = [''2020-01-01T00:00:00'', ''2021-01-01T00:00:00''],
      newest_index = 1, wasted_space_bytes = 5\<rparr>"

definition example_difference :: "int \<Rightarrow> string \<Rightarrow> group_record" where
  "example_difference n p =
     \<lparr>filename = ''photo'', extension = ''jpg'', size_bytes = 5, group_id = n,
      file_count = 1, paths = [p], dates = [[]], newest_index = 0\<rparr>"





definition three_groups :: "duplicate_record list" where
  "three_groups =
     [\<lparr>filename = ''notes'', extension = ''txt'', size_bytes = 7, group_id = 1, file_count = 2,
       paths = [''c/notes.txt'', ''d/notes.txt''],
       dates = [''2021-01-01T00:00:00'', ''2022-01-01T00:00:00''],
       newest_index = 1, wasted_space_bytes = 7\<rparr>,
      \<lparr>filename = ''photo'', extension = ''jpg'', size_bytes = 100, group_id = 1, file_count = 2,
       paths = [''a/photo.jpg'', ''b/photo.jpg''],
       dates = [''2020-01-01T00:00:00'', ''2021-01-01T00:00:00''],
       newest_index = 1, wasted_space_bytes = 100\<rparr>,
      \<lparr>filename = ''song'', extension = ''mp3'', size_bytes = 9, group_id = 1, file_count = 2,
       paths = [''e/song.mp3'', ''f/song.mp3''],
       dates = [''2021-01-01T00:00:00'', ''2022-01-01T00:00:00''],
       newest_index = 1, wasted_space_bytes = 9\<rparr>]"

definition photo_lost :: world where
  "photo_lost =
     \<lparr>files = [''d/notes.txt'' \<mapsto> ''hello'', ''f/song.mp3'' \<mapsto> ''la''], dirs = {''c'', ''d'', ''f''},
      denied = (\<lambda>p. None), calls = []\<rparr>"

section \<open>Properties of the comparison functions\<close>

lemma f_read_same_chunk:
  "f_read f1 cs = Inr (c1, f1') \<Longrightarrow> f_read f2 cs = Inr (c2, f2') \<Longrightarrow> rest f1 = rest f2 \<Longrightarrow> c1 = c2"
  by (auto simp: f_read_def Let_def split: if_splits)

lemma f_read_split:
  "f_read f cs = Inr (chunk, f') \<Longrightarrow> chunk @ rest f' = rest f"
  by (auto simp: f_read_def Let_def min_def split: if_splits)

lemma read_chunks_rest: "cs \<noteq> 0 \<Longrightarrow> read_chunks f cs = Inr b \<Longrightarrow> b = rest f"
proof (induction f cs arbitrary: b rule: read_chunks.induct)
  case (1 f cs)
  show ?case
  proof (cases "f_read f cs")
    case (Inl e)
    with "1.prems" show ?thesis by (simp add: read_chunks.simps [of f cs])
  next
    case (Inr r)
    obtain chunk f' where r: "r = (chunk, f')" by (cases r)
    show ?thesis
    proof (cases "chunk = []")
      case True
      with Inr r "1.prems" show ?thesis
        by (auto simp: read_chunks.simps [of f cs] f_read_def Let_def split: if_splits)
    next
      case False
      with Inr r "1.prems" obtain bs where bs: "read_chunks f' cs = Inr bs" "b = chunk @ bs"
        by (auto simp: read_chunks.simps [of f cs] split: sum.splits)
      have "bs = rest f'" using "1.IH" [OF Inr r [symmetric] False "1.prems"(1) bs(1)] .
      with Inr r bs show ?thesis
        using f_read_split by blast
    qed
  qed
qed

lemma compare_loop_True_iff:
  "cs \<noteq> 0 \<Longrightarrow>
   (compare_loop f1 f2 cs = Inr True) = (\<exists>b. read_chunks f1 cs = Inr b \<and> read_chunks f2 cs = Inr b)"
proof (induction f1 f2 cs rule: compare_loop.induct)
  case (1 f1 f2 cs)
  show ?case
  proof (cases "f_read f1 cs")
    case (Inl e)
    then show ?thesis
      by (simp add: compare_loop.simps [of f1 f2 cs] read_chunks.simps [of f1 cs])
  next
    case r1: (Inr r)
    obtain c1 f1' where r: "r = (c1, f1')" by (cases r)
    show ?thesis
    proof (cases "f_read f2 cs")
      case (Inl e)
      with r1 r show ?thesis
        by (simp add: compare_loop.simps [of f1 f2 cs] read_chunks.simps [of f2 cs])
    next
      case r2: (Inr r')
      obtain c2 f2' where r': "r' = (c2, f2')" by (cases r')
      show ?thesis
      proof (cases "c1 = c2")
        case False
        have "\<not> (\<exists>b. read_chunks f1 cs = Inr b \<and> read_chunks f2 cs = Inr b)"
        proof
          assume "\<exists>b. read_chunks f1 cs = Inr b \<and> read_chunks f2 cs = Inr b"
          then obtain b where "read_chunks f1 cs = Inr b" "read_chunks f2 cs = Inr b" by blast
          then have "rest f1 = rest f2"
            using read_chunks_rest [OF "1.prems"] by metis
          with r1 r2 r r' False show False
            using f_read_same_chunk by blast
        qed
        with False r1 r2 r r' show ?thesis
          by (simp add: compare_loop.simps [of f1 f2 cs])
      next
        case True
        show ?thesis
        proof (cases "c1 = []")
          case e: True
          with True r1 r2 r r' show ?thesis
            by (simp add: compare_loop.simps [of f1 f2 cs] read_chunks.simps [of f1 cs]
                read_chunks.simps [of f2 cs])
        next
          case ne: False
          have "(compare_loop f1' f2' cs = Inr True) =
                (\<exists>b. read_chunks f1' cs = Inr b \<and> read_chunks f2' cs = Inr b)"
            using "1.IH" [OF r1 r [symmetric] r2 r' [symmetric] _ ne "1.prems"] True by simp
          with True ne r1 r2 r r' show ?thesis
            by (auto simp: compare_loop.simps [of f1 f2 cs] read_chunks.simps [of f1 cs]
                read_chunks.simps [of f2 cs] split: sum.splits)
        qed
      qed
    qed
  qed
qed

lemma read_to_eof_content:
  "cs \<noteq> 0 \<Longrightarrow> read_to_eof d p cs = Inr b \<Longrightarrow> b = content (d p)"
  by (auto simp: read_to_eof_def open_rb_def dest: read_chunks_rest split: option.splits)

text \<open>
  Claim C4. For every pair of paths, \<open>compare_files_byte_by_byte\<close> answers \<open>True\<close>
  exactly when both files can be read to the end of the file and hold the same bytes.
  An error while opening or reading either file gives \<open>False\<close>. The chunk size is any
  size but 0 (the default is 8192; with size 0 every read is empty).
\<close>

theorem compare_files_byte_by_byte_correct:
  assumes "chunk_size \<noteq> 0"
  shows "(compare_files_byte_by_byte d file1 file2 chunk_size =
            (read_to_eof d file1 chunk_size = Inr (content (d file1)) \<and>
             read_to_eof d file2 chunk_size = Inr (content (d file2)) \<and>
             content (d file1) = content (d file2))) \<and>
         (read_to_eof d file1 chunk_size = Inl e \<or> read_to_eof d file2 chunk_size = Inl e
            \<longrightarrow> \<not> compare_files_byte_by_byte d file1 file2 chunk_size)"
proof -
  have iff: "compare_files_byte_by_byte d file1 file2 chunk_size =
        (\<exists>b. read_to_eof d file1 chunk_size = Inr b \<and> read_to_eof d file2 chunk_size = Inr b)"
    by (auto simp: compare_files_byte_by_byte_def read_to_eof_def
        compare_loop_True_iff [OF assms, symmetric] split: sum.splits)
  have "(\<exists>b. read_to_eof d file1 chunk_size = Inr b \<and> read_to_eof d file2 chunk_size = Inr b) =
        (read_to_eof d file1 chunk_size = Inr (content (d file1)) \<and>
         read_to_eof d file2 chunk_size = Inr (content (d file2)) \<and>
         content (d file1) = content (d file2))"
    using read_to_eof_content [OF assms] by metis
  with iff show ?thesis by auto
qed

theorem compare_files_byte_by_byte_witness:
  "(2::int) \<noteq> 0 \<and> (8192::int) \<noteq> 0 \<and>
   compare_files_byte_by_byte example_disk ''a'' ''b'' 2 \<and>
   compare_files_byte_by_byte example_disk ''a'' ''b'' 8192 \<and>
   \<not> compare_files_byte_by_byte example_disk ''a'' ''c'' 2 \<and>
   \<not> compare_files_byte_by_byte example_disk ''a'' ''d'' 2 \<and>
   read_to_eof example_disk ''d'' 2 = Inl (OSError ''read'') \<and>
   \<not> compare_files_byte_by_byte example_disk ''e'' ''e'' 8192"
  using compare_files_byte_by_byte_correct [of 2 example_disk "''a''" "''b''"]
    compare_files_byte_by_byte_correct [of 8192 example_disk "''a''" "''b''"]
    compare_files_byte_by_byte_correct [of 2 example_disk "''a''" "''c''"]
    compare_files_byte_by_byte_correct [of 2 example_disk "''a''" "''d''" "OSError ''read''"]
    compare_files_byte_by_byte_correct [of 8192 example_disk "''e''" "''e''" "OSError ''No such file''"]
  by (simp add: read_to_eof_def open_rb_def example_disk_def read_chunks.simps f_read_def)

lemma length_hex_of: "length (hex_of k n) = k"
  by (induction k arbitrary: n) simp_all

lemma length_hexdigest: "length (hexdigest n) = 64"
  by (simp add: hexdigest_def length_hex_of)

lemma hexdigest_nonempty: "hexdigest n \<noteq> []"
  using length_hexdigest [of n] by auto

lemma hash_loop_read_chunks:
  "hash_loop f cs acc = (case read_chunks f cs of Inl e \<Rightarrow> Inl e | Inr bs \<Rightarrow> Inr (acc @ bs))"
proof (induction f cs acc rule: hash_loop.induct)
  case (1 f cs acc)
  show ?case
  proof (cases "f_read f cs")
    case (Inl e)
    then show ?thesis
      by (simp add: hash_loop.simps [of f cs acc] read_chunks.simps [of f cs])
  next
    case (Inr r)
    obtain chunk f' where r: "r = (chunk, f')" by (cases r)
    show ?thesis
    proof (cases "chunk = []")
      case True
      with Inr r show ?thesis
        by (simp add: hash_loop.simps [of f cs acc] read_chunks.simps [of f cs])
    next
      case False
      with Inr r "1.IH" [OF Inr r [symmetric] False] show ?thesis
        by (simp add: hash_loop.simps [of f cs acc] read_chunks.simps [of f cs] split: sum.splits)
    qed
  qed
qed

lemma compute_file_hash_read:
  "cache p = None \<Longrightarrow>
   compute_file_hash H d cache p cs =
     (case read_to_eof d p cs of
        Inl e \<Rightarrow> ([], cache)
      | Inr bs \<Rightarrow> (hexdigest (H bs), cache(p \<mapsto> hexdigest (H bs))))"
  by (simp add: compute_file_hash_def read_to_eof_def hash_loop_read_chunks Let_def
      split: sum.splits)

lemma compute_file_hash_cached:
  "cache p = Some h \<Longrightarrow> compute_file_hash H d cache p cs = (h, cache)"
  by (simp add: compute_file_hash_def)

lemma compute_file_hash_stores:
  "compute_file_hash H d cache p cs = (h, cache') \<Longrightarrow> h \<noteq> [] \<Longrightarrow> cache' p = Some h"
  by (auto simp: compute_file_hash_def Let_def split: option.splits sum.splits)

lemma compute_file_hash_mono:
  "compute_file_hash H d cache p cs = (h, cache') \<Longrightarrow> cache q = Some k \<Longrightarrow> cache' q = Some k"
  by (auto simp: compute_file_hash_def Let_def split: option.splits sum.splits)

lemma compute_file_hash_eq:
  "compute_file_hash H d cache p cs =
     (case cache p of
        Some h \<Rightarrow> (h, cache)
      | None \<Rightarrow>
          (case read_to_eof d p cs of
             Inl e \<Rightarrow> ([], cache)
           | Inr bs \<Rightarrow> (hexdigest (H bs), cache(p \<mapsto> hexdigest (H bs)))))"
  by (simp add: compute_file_hash_read compute_file_hash_cached split: option.splits)

lemma example_digests:
  "hexdigest (example_H ''hello'') \<noteq> hexdigest (example_H ''help!'')"
  by code_simp

lemma example_reads:
  "read_to_eof example_disk ''a'' 8192 = Inr ''hello''"
  "read_to_eof example_disk ''b'' 8192 = Inr ''hello''"
  "read_to_eof example_disk ''c'' 8192 = Inr ''help!''"
  "read_to_eof example_disk ''d'' 8192 = Inl (OSError ''read'')"
  "read_to_eof example_disk ''e'' 8192 = Inl (OSError ''No such file'')"
  by (simp_all add: read_to_eof_def open_rb_def example_disk_def read_chunks.simps f_read_def)

lemma run_calls_mono: "cache q = Some k \<Longrightarrow> run_calls H later cache q = Some k"
proof (induction later arbitrary: cache)
  case Nil
  then show ?case by simp
next
  case (Cons c later)
  obtain d p where c: "c = (d, p)" by (cases c)
  obtain h cache' where r: "compute_file_hash H d cache p 8192 = (h, cache')"
    by (cases "compute_file_hash H d cache p 8192")
  from compute_file_hash_mono [OF r Cons.prems] have "cache' q = Some k" .
  then have "run_calls H later cache' q = Some k" by (rule Cons.IH)
  with c r show ?case by simp
qed

lemma compute_file_hash_no_empty:
  "compute_file_hash H d cache p cs = (h, cache') \<Longrightarrow> [] \<notin> ran cache \<Longrightarrow> [] \<notin> ran cache'"
  by (auto simp: compute_file_hash_def Let_def ran_def hexdigest_nonempty
      split: option.splits sum.splits if_splits)

text \<open>
  Claim C10. \<open>compute_file_hash\<close> memoizes successful digests only. Once a call for
  \<open>p\<close> has returned a non-empty digest \<open>h\<close>, a call for \<open>p\<close> after any later calls
  returns \<open>h\<close> and leaves the cache as it is, whatever the files hold by then (the result
  does not depend on the disk \<open>d'\<close>). A call for an uncached path that fails to read
  returns the empty string and leaves the cache unchanged; a call for an uncached
  path that reads the file returns the non-empty digest of the bytes read and stores
  it. No empty digest ever enters the cache.
\<close>

theorem compute_file_hash_memo:
  "(compute_file_hash H d cache p cs = (h, cache') \<and> h \<noteq> [] \<longrightarrow>
      compute_file_hash H d' (run_calls H later cache') p cs' = (h, run_calls H later cache')) \<and>
   (cache p = None \<and> read_to_eof d p cs = Inl e \<longrightarrow>
      compute_file_hash H d cache p cs = ([], cache)) \<and>
   (cache p = None \<and> read_to_eof d' p cs' = Inr b \<longrightarrow>
      compute_file_hash H d' cache p cs' = (hexdigest (H b), cache(p \<mapsto> hexdigest (H b))) \<and>
      hexdigest (H b) \<noteq> []) \<and>
   ([] \<notin> ran cache \<longrightarrow> [] \<notin> ran (snd (compute_file_hash H d cache p cs)))"
proof (intro conjI impI)
  assume a: "compute_file_hash H d cache p cs = (h, cache') \<and> h \<noteq> []"
  then have "cache' p = Some h" by (auto dest: compute_file_hash_stores)
  then have "run_calls H later cache' p = Some h" by (rule run_calls_mono)
  then show "compute_file_hash H d' (run_calls H later cache') p cs' = (h, run_calls H later cache')"
    by (rule compute_file_hash_cached)
next
  assume "cache p = None \<and> read_to_eof d p cs = Inl e"
  then show "compute_file_hash H d cache p cs = ([], cache)"
    by (simp add: compute_file_hash_read)
next
  assume "cache p = None \<and> read_to_eof d' p cs' = Inr b"
  then show "compute_file_hash H d' cache p cs' = (hexdigest (H b), cache(p \<mapsto> hexdigest (H b)))"
    by (simp add: compute_file_hash_read)
next
  show "hexdigest (H b) \<noteq> []" by (rule hexdigest_nonempty)
next
  assume "[] \<notin> ran cache"
  then show "[] \<notin> ran (snd (compute_file_hash H d cache p cs))"
    using compute_file_hash_no_empty [of H d cache p cs] by (cases "compute_file_hash H d cache p cs") auto
qed

theorem compute_file_hash_memo_witness:
  "compute_file_hash example_H example_disk Map.empty ''a'' 8192 =
     (hexdigest (example_H ''hello''), [''a'' \<mapsto> hexdigest (example_H ''hello'')]) \<and>
   hexdigest (example_H ''hello'') \<noteq> [] \<and>
   compute_file_hash example_H unreadable_disk
     (run_calls example_H [(example_disk, ''d'')] [''a'' \<mapsto> hexdigest (example_H ''hello'')]) ''a'' 8192 =
     (hexdigest (example_H ''hello''),
      run_calls example_H [(example_disk, ''d'')] [''a'' \<mapsto> hexdigest (example_H ''hello'')]) \<and>
   read_to_eof example_disk ''d'' 8192 = Inl (OSError ''read'') \<and>
   compute_file_hash example_H example_disk Map.empty ''d'' 8192 = ([], Map.empty) \<and>
   read_to_eof example_disk ''a'' 8192 = Inr ''hello''"
proof -
  have r: "read_to_eof example_disk ''a'' 8192 = Inr ''hello''"
    by (simp add: read_to_eof_def open_rb_def example_disk_def read_chunks.simps f_read_def)
  have f: "read_to_eof example_disk ''d'' 8192 = Inl (OSError ''read'')"
    by (simp add: read_to_eof_def open_rb_def example_disk_def read_chunks.simps f_read_def)
  have first: "compute_file_hash example_H example_disk Map.empty ''a'' 8192 =
     (hexdigest (example_H ''hello''), [''a'' \<mapsto> hexdigest (example_H ''hello'')]) \<and>
     hexdigest (example_H ''hello'') \<noteq> []"
    using r compute_file_hash_memo [where cache = Map.empty and p = "''a''" and d' = example_disk
        and cs' = 8192 and b = "''hello''" and H = example_H]
    by simp
  have later: "compute_file_hash example_H unreadable_disk
     (run_calls example_H [(example_disk, ''d'')] [''a'' \<mapsto> hexdigest (example_H ''hello'')]) ''a'' 8192 =
     (hexdigest (example_H ''hello''),
      run_calls example_H [(example_disk, ''d'')] [''a'' \<mapsto> hexdigest (example_H ''hello'')])"
    using first compute_file_hash_memo [where H = example_H and d = example_disk
        and cache = Map.empty and p = "''a''" and cs = 8192 and h = "hexdigest (example_H ''hello'')"
        and cache' = "[''a'' \<mapsto> hexdigest (example_H ''hello'')]" and d' = unreadable_disk
        and later = "[(example_disk, ''d'')]" and cs' = 8192]
    by blast
  have failing: "compute_file_hash example_H example_disk Map.empty ''d'' 8192 = ([], Map.empty)"
    using f compute_file_hash_memo [where H = example_H and d = example_disk
        and cache = Map.empty and p = "''d''" and cs = 8192 and e = "OSError ''read''"]
    by simp
  from r f first later failing show ?thesis by blast
qed

section \<open>Properties of the grouping\<close>

lemma groups_disjoint_distinct_concat: "distinct (concat gs) \<Longrightarrow> groups_disjoint gs"
  by (induction gs) (auto simp: list_all_iff)

lemma groups_disjoint_filter: "groups_disjoint gs \<Longrightarrow> groups_disjoint (filter P gs)"
  by (induction gs) (auto simp: list_all_iff)

lemma byte_group_loop_distinct:
  "distinct remaining \<Longrightarrow> distinct (concat groups) \<Longrightarrow>
   set (concat groups) \<inter> set remaining = {} \<Longrightarrow>
   distinct (concat (byte_group_loop same rank remaining groups))"
proof (induction same rank remaining groups rule: byte_group_loop.induct)
  case (1 same rank remaining groups)
  show ?case
  proof (cases "sort_key (rank remaining) remaining")
    case Nil
    with "1.prems" show ?thesis
      by (simp add: byte_group_loop.simps [of same rank remaining groups])
  next
    case (Cons current_file others)
    define to_remove where "to_remove = filter (same current_file) others"
    define current_group where "current_group = current_file # to_remove"
    define remaining' where "remaining' = filter (\<lambda>p. p \<notin> set to_remove) others"
    define groups' where
      "groups' = (if length current_group > 1 then groups @ [current_group] else groups)"
    have step: "byte_group_loop same rank remaining groups =
                byte_group_loop same rank remaining' groups'"
      using Cons
      by (simp add: byte_group_loop.simps [of same rank remaining groups] Let_def
          to_remove_def current_group_def remaining'_def groups'_def)
    have d: "distinct (current_file # others)"
      using "1.prems"(1) Cons by (metis distinct_sort)
    have s: "set (current_file # others) = set remaining"
      using Cons by (metis set_sort)
    have d1: "distinct remaining'"
      using d by (simp add: remaining'_def)
    have dg: "distinct current_group"
      using d by (auto simp: current_group_def to_remove_def)
    have sub: "set current_group \<subseteq> set remaining"
      using s by (auto simp: current_group_def to_remove_def)
    have d2: "distinct (concat groups')"
      using "1.prems"(2,3) dg sub by (auto simp: groups'_def)
    have sub': "set remaining' \<subseteq> set remaining"
      using s by (auto simp: remaining'_def)
    have disj: "set current_group \<inter> set remaining' = {}"
      using d by (auto simp: current_group_def remaining'_def to_remove_def)
    have d3: "set (concat groups') \<inter> set remaining' = {}"
      using "1.prems"(3) sub' disj by (auto simp: groups'_def)
    have "distinct (concat (byte_group_loop same rank remaining' groups'))"
      using "1.IH" [OF Cons to_remove_def current_group_def] d1 d2 d3
      by (simp add: remaining'_def groups'_def)
    with step show ?thesis by simp
  qed
qed

lemma map_default_keys:
  "distinct (map fst hg) \<Longrightarrow> distinct (map fst (AList.map_default h v f hg))"
  by (rule distinct_map_default)

lemma map_default_members:
  "(k, g) \<in> set (AList.map_default h [p] (\<lambda>g. g @ [p]) hg) \<Longrightarrow> q \<in> set g \<Longrightarrow>
   (k = h \<and> q = p) \<or> (\<exists>g'. (k, g') \<in> set hg \<and> q \<in> set g')"
  by (induction hg) (auto split: if_splits)

lemma hash_group_loop_inv:
  "grouped_by_cache cache hg \<Longrightarrow> hash_group_loop H d ps cache hg = (hg', cache') \<Longrightarrow>
   grouped_by_cache cache' hg'"
proof (induction ps arbitrary: cache hg)
  case Nil
  then show ?case by simp
next
  case (Cons filepath ps)
  obtain h c1 where r: "compute_file_hash H d cache filepath 8192 = (h, c1)"
    by (cases "compute_file_hash H d cache filepath 8192")
  define hg1 where
    "hg1 = (if h \<noteq> [] then AList.map_default h [filepath] (\<lambda>g. g @ [filepath]) hg else hg)"
  have run: "hash_group_loop H d ps c1 hg1 = (hg', cache')"
    using Cons.prems(2) r by (simp add: hg1_def)
  have "grouped_by_cache c1 hg1"
  proof (cases "h = []")
    case True
    with Cons.prems(1) r show ?thesis
      unfolding grouped_by_cache_def hg1_def
      by (auto dest: compute_file_hash_mono)
  next
    case False
    have st: "c1 filepath = Some h" using r False by (rule compute_file_hash_stores)
    have keys: "distinct (map fst hg1)"
      using Cons.prems(1) by (simp add: hg1_def grouped_by_cache_def distinct_map_default)
    have "cache p = Some k \<Longrightarrow> c1 p = Some k" for p k
      using r by (rule compute_file_hash_mono)
    with Cons.prems(1) st False have "\<forall>k g p. (k, g) \<in> set hg1 \<and> p \<in> set g \<longrightarrow> c1 p = Some k"
      unfolding grouped_by_cache_def hg1_def
      by (auto dest!: map_default_members)
    with keys show ?thesis by (simp add: grouped_by_cache_def)
  qed
  then show ?case using run by (rule Cons.IH)
qed

lemma grouped_by_cache_disjoint: "grouped_by_cache cache hg \<Longrightarrow> groups_disjoint (map snd hg)"
proof (induction hg)
  case Nil
  then show ?case by simp
next
  case (Cons kg hg)
  obtain k g where kg: "kg = (k, g)" by (cases kg)
  from Cons.prems have "grouped_by_cache cache hg"
    by (auto simp: grouped_by_cache_def)
  then have "groups_disjoint (map snd hg)" by (rule Cons.IH)
  moreover have "list_all (\<lambda>h. list_all (\<lambda>p. p \<notin> set h) g) (map snd hg)"
  proof -
    have "p \<notin> set g'" if "p \<in> set g" "(k', g') \<in> set hg" for p k' g'
    proof
      assume "p \<in> set g'"
      with that Cons.prems kg have "cache p = Some k'" "cache p = Some k"
        by (auto simp: grouped_by_cache_def)
      then have "k' = k" by simp
      with that Cons.prems kg show False
        by (force simp: grouped_by_cache_def)
    qed
    then show ?thesis by (auto simp: list_all_iff)
  qed
  ultimately show ?case using kg by simp
qed

text \<open>
  Claim C2. Under one key, no path is placed in two of the groups returned, with either
  strategy: the groups of \<open>_group_identical_files_byte\<close> are pairwise disjoint for every
  enumeration order of the set and for every outcome \<open>same\<close> of the comparisons (also
  outcomes that are not symmetric or not transitive, as failing reads give), and so are
  the groups of \<open>_group_identical_files_hash\<close>, for every disk and every cache.
\<close>

theorem classify_groups_disjoint:
  "groups_disjoint (group_identical_files_byte d rank ps) \<and>
   groups_disjoint (byte_group_loop same rank (remdups ps) []) \<and>
   groups_disjoint (fst (group_identical_files_hash H d cache ps))"
proof (intro conjI)
  have "distinct (concat (byte_group_loop same' rank (remdups ps) []))" for same'
    by (rule byte_group_loop_distinct) simp_all
  then show "groups_disjoint (group_identical_files_byte d rank ps)"
    and "groups_disjoint (byte_group_loop same rank (remdups ps) [])"
    by (simp_all add: group_identical_files_byte_def groups_disjoint_distinct_concat)
next
  obtain hg c where r: "hash_group_loop H d ps cache [] = (hg, c)"
    by (cases "hash_group_loop H d ps cache []")
  have "grouped_by_cache cache []" by (simp add: grouped_by_cache_def)
  then have "grouped_by_cache c hg" using r by (rule hash_group_loop_inv)
  then have "groups_disjoint (map snd hg)" by (rule grouped_by_cache_disjoint)
  then show "groups_disjoint (fst (group_identical_files_hash H d cache ps))"
    using r by (simp add: group_identical_files_hash_def groups_disjoint_filter)
qed

lemma example_comparisons:
  "compare_files_byte_by_byte example_disk ''b'' ''a'' 8192"
  "\<not> compare_files_byte_by_byte example_disk ''b'' ''c'' 8192"
  "\<not> compare_files_byte_by_byte example_disk ''b'' ''d'' 8192"
  "\<not> compare_files_byte_by_byte example_disk ''c'' ''d'' 8192"
  by (simp_all add: compare_files_byte_by_byte_def open_rb_def example_disk_def
      compare_loop.simps f_read_def)

lemma example_byte_groups: "group_identical_files_byte example_disk (\<lambda>_ _. 0) [''b'', ''a'', ''c'', ''d'', ''a''] = [[''b'', ''a'']]"
  by (simp add: group_identical_files_byte_def byte_group_loop.simps example_comparisons)

lemma example_hash_groups:
  "fst (group_identical_files_hash example_H example_disk Map.empty
          [''b'', ''a'', ''c'', ''d'', ''a'']) = [[''b'', ''a'', ''a'']]"
  using example_digests
  by (simp add: group_identical_files_hash_def compute_file_hash_eq example_reads
      hexdigest_nonempty)

theorem classify_groups_disjoint_witness:
  "group_identical_files_byte example_disk (\<lambda>_ _. 0) [''b'', ''a'', ''c'', ''d'', ''a''] = [[''b'', ''a'']] \<and>
   groups_disjoint (group_identical_files_byte example_disk (\<lambda>_ _. 0) [''b'', ''a'', ''c'', ''d'', ''a'']) \<and>
   fst (group_identical_files_hash example_H example_disk Map.empty [''b'', ''a'', ''c'', ''d'', ''a'']) =
     [[''b'', ''a'', ''a'']] \<and>
   groups_disjoint (fst (group_identical_files_hash example_H example_disk Map.empty [''b'', ''a'', ''c'', ''d'', ''a'']))"
  using example_byte_groups example_hash_groups classify_groups_disjoint [of example_disk "\<lambda>_ _. 0" "[''b'', ''a'', ''c'', ''d'', ''a'']"
      "\<lambda>_ _. False" example_H Map.empty]
  by blast

section \<open>Properties of the persisted records\<close>

lemma enumerate_member: "(idx, g) \<in> set (enumerate n gs) \<Longrightarrow> g \<in> set gs"
  by (metis enumerate_eq_zip set_zip_rightD)

lemma duplicates_data_of_entry:
  "r \<in> set (duplicates_data_of mtime td) \<Longrightarrow>
   \<exists>key gs idx g. (key, gs) \<in> set td \<and> g \<in> set gs \<and> r = duplicate_entry mtime key idx g"
  by (auto simp: duplicates_data_of_def) (blast dest: enumerate_member)

lemma differences_data_of_entry:
  "r \<in> set (differences_data_of mtime td) \<Longrightarrow>
   \<exists>key gs idx g. (key, gs) \<in> set td \<and> g \<in> set gs \<and> r = difference_entry mtime key idx g"
  by (auto simp: differences_data_of_def) (blast dest: enumerate_member)

lemma duplicate_entry_fields:
  "paths (duplicate_entry mtime key idx g) = sort g"
  "dates (duplicate_entry mtime key idx g) = map (get_file_date mtime) (sort g)"
  "file_count (duplicate_entry mtime key idx g) = int (length g)"
  "newest_index (duplicate_entry mtime key idx g) =
     newest_index_of (map (get_file_date mtime) (sort g))"
  "size_bytes (duplicate_entry mtime key idx g) = snd (snd key)"
  "wasted_space_bytes (duplicate_entry mtime key idx g) = snd (snd key) * (int (length g) - 1)"
proof -
  obtain fname ext sz where key: "key = (fname, ext, sz)" by (cases key)
  show "paths (duplicate_entry mtime key idx g) = sort g"
    "dates (duplicate_entry mtime key idx g) = map (get_file_date mtime) (sort g)"
    "file_count (duplicate_entry mtime key idx g) = int (length g)"
    "newest_index (duplicate_entry mtime key idx g) =
       newest_index_of (map (get_file_date mtime) (sort g))"
    "size_bytes (duplicate_entry mtime key idx g) = snd (snd key)"
    "wasted_space_bytes (duplicate_entry mtime key idx g) = snd (snd key) * (int (length g) - 1)"
    by (simp_all add: key duplicate_entry_def Let_def)
qed

lemma difference_entry_fields:
  "paths (difference_entry mtime key idx g) = sort g"
  "dates (difference_entry mtime key idx g) = map (get_file_date mtime) (sort g)"
  "file_count (difference_entry mtime key idx g) = int (length g)"
  "newest_index (difference_entry mtime key idx g) =
     newest_index_of (map (get_file_date mtime) (sort g))"
proof -
  obtain fname ext sz where key: "key = (fname, ext, sz)" by (cases key)
  show "paths (difference_entry mtime key idx g) = sort g"
    "dates (difference_entry mtime key idx g) = map (get_file_date mtime) (sort g)"
    "file_count (difference_entry mtime key idx g) = int (length g)"
    "newest_index (difference_entry mtime key idx g) =
       newest_index_of (map (get_file_date mtime) (sort g))"
    by (simp_all add: key difference_entry_def Let_def)
qed

lemma duplicate_entry_shape:
  "record_shape_ok mtime (duplicate_entry mtime key idx g)"
  "wasted_space_bytes (duplicate_entry mtime key idx g) =
     size_bytes (duplicate_entry mtime key idx g) * (file_count (duplicate_entry mtime key idx g) - 1)"
  by (simp_all add: record_shape_ok_def duplicate_entry_fields)

lemma difference_entry_shape:
  "record_shape_ok mtime (difference_entry mtime key idx g)"
  by (simp add: record_shape_ok_def difference_entry_fields)

lemma save_results_fields:
  "duplicates (fst (save_results_to_json mtime td df)) = duplicates_data_of mtime td"
  "differences (snd (save_results_to_json mtime td df)) = differences_data_of mtime df"
  by (simp_all add: save_results_to_json_def Let_def)

text \<open>
  Claim C6. Every record that \<open>save_results_to_json\<close> writes, to either document, has
  \<open>len(paths) = len(dates) = file_count\<close>, with \<open>dates\<close> the dates of \<open>paths\<close> in the
  same order and \<open>paths\<close> sorted in ascending order; every duplicate record has
  \<open>wasted_space_bytes = size_bytes * (file_count - 1)\<close>; and \<open>total_wasted_space_bytes\<close>
  is the sum of \<open>wasted_space_bytes\<close> over the records of the document.
\<close>

theorem save_results_records:
  "list_all (\<lambda>r. record_shape_ok mtime r \<and>
                  wasted_space_bytes r = size_bytes r * (file_count r - 1))
     (duplicates (fst (save_results_to_json mtime td df))) \<and>
   list_all (record_shape_ok mtime) (differences (snd (save_results_to_json mtime td df))) \<and>
   total_wasted_space_bytes (fst (save_results_to_json mtime td df)) =
     sum_list (map wasted_space_bytes (duplicates (fst (save_results_to_json mtime td df))))"
  by (auto simp: save_results_to_json_def Let_def list_all_iff duplicate_entry_shape
      difference_entry_shape dest!: duplicates_data_of_entry differences_data_of_entry)

lemma example_save:
  "save_results_to_json example_mtime
     [((''photo'', ''jpg'', 5), [[''b'', ''a'']])] [((''photo'', ''jpg'', 5), [[''c''], [''d'']])] =
     (\<lparr>total_groups = 1, total_wasted_space_bytes = 5, duplicates = [example_record]\<rparr>,
      \<lparr>total_groups = 2,
       differences = [example_difference 1 ''c'', example_difference 2 ''d'']\<rparr>)"
  by (simp add: save_results_to_json_def example_record_def example_difference_def
      duplicates_data_of_def differences_data_of_def duplicate_entry_def difference_entry_def
      enumerate_eq_zip get_file_date_def example_mtime_def newest_index_of_def)

theorem save_results_records_witness:
  "record_shape_ok example_mtime example_record \<and>
   wasted_space_bytes example_record = size_bytes example_record * (file_count example_record - 1) \<and>
   paths example_record = [''a'', ''b''] \<and>
   record_shape_ok example_mtime (example_difference 1 ''c'') \<and>
   record_shape_ok example_mtime (example_difference 2 ''d'') \<and>
   total_wasted_space_bytes
     (fst (save_results_to_json example_mtime
        [((''photo'', ''jpg'', 5), [[''b'', ''a'']])]
        [((''photo'', ''jpg'', 5), [[''c''], [''d'']])])) = 5"
  using save_results_records [of example_mtime "[((''photo'', ''jpg'', 5), [[''b'', ''a'']])]"
      "[((''photo'', ''jpg'', 5), [[''c''], [''d'']])]"]
  by (simp add: example_save) (simp add: example_record_def)

section \<open>Properties of newest_index\<close>

lemma max_list_Max:
  assumes "ds \<noteq> []"
  shows "max_list ds = Max (set ds)"
proof (cases ds)
  case Nil
  with assms show ?thesis by simp
next
  case (Cons a list)
  then show ?thesis using Max.set_eq_fold [of a list] by simp
qed

lemma list_index_less: "x \<in> set ys \<Longrightarrow> list_index ys x < length ys"
  by (induction ys) auto

lemma list_index_nth: "x \<in> set ys \<Longrightarrow> ys ! list_index ys x = x"
  by (induction ys) auto

lemma list_index_first: "j < list_index ys x \<Longrightarrow> ys ! j \<noteq> x"
proof (induction ys arbitrary: j)
  case Nil
  then show ?case by simp
next
  case (Cons y ys)
  then show ?case by (cases j) (auto split: if_splits)
qed

lemma newest_index_of_range:
  "ds \<noteq> [] \<Longrightarrow> 0 \<le> newest_index_of ds \<and> newest_index_of ds < int (length ds)"
  by (auto simp: newest_index_of_def max_list_Max intro!: list_index_less)

lemma newest_index_of_max:
  assumes "list_ex (\<lambda>d. d \<noteq> []) ds"
  shows "list_all (\<lambda>d. d \<le> ds ! nat (newest_index_of ds)) ds \<and>
         list_all (\<lambda>j. ds ! j \<noteq> ds ! nat (newest_index_of ds)) [0..<nat (newest_index_of ds)]"
proof -
  from assms have ne: "ds \<noteq> []" by auto
  then have m: "max_list ds = Max (set ds)" by (rule max_list_Max)
  have mem: "Max (set ds) \<in> set ds" using ne by (intro Max_in) auto
  have n: "nat (newest_index_of ds) = list_index ds (Max (set ds))"
    using assms ne by (simp add: newest_index_of_def m)
  have at: "ds ! list_index ds (Max (set ds)) = Max (set ds)"
    using mem by (rule list_index_nth)
  have "d \<le> Max (set ds)" if "d \<in> set ds" for d using that by simp
  moreover have "ds ! j \<noteq> Max (set ds)" if "j < list_index ds (Max (set ds))" for j
    using that by (rule list_index_first)
  ultimately show ?thesis by (auto simp: n at list_all_iff)
qed

lemma newest_index_of_empty: "\<not> list_ex (\<lambda>d. d \<noteq> []) ds \<Longrightarrow> newest_index_of ds = 0"
  by (simp add: newest_index_of_def)

lemma newest_index_of_ok:
  assumes "ds \<noteq> []"
  shows "0 \<le> newest_index_of ds \<and> newest_index_of ds < int (length ds) \<and>
     (if list_ex (\<lambda>d. d \<noteq> []) ds
      then list_all (\<lambda>d. d \<le> ds ! nat (newest_index_of ds)) ds \<and>
           list_all (\<lambda>j. ds ! j \<noteq> ds ! nat (newest_index_of ds)) [0..<nat (newest_index_of ds)]
      else newest_index_of ds = 0)"
proof (cases "list_ex (\<lambda>d. d \<noteq> []) ds")
  case True
  with newest_index_of_range [OF assms] newest_index_of_max [OF True] show ?thesis
    by simp
next
  case False
  with newest_index_of_range [OF assms] newest_index_of_empty [OF False] show ?thesis
    by simp
qed

lemma entry_newest_ok:
  assumes "g \<noteq> []"
  shows "newest_ok (duplicate_entry mtime key idx g)" "newest_ok (difference_entry mtime key idx g)"
proof -
  define ds where "ds = map (get_file_date mtime) (sort g)"
  have "sort g \<noteq> []" using assms by (metis length_0_conv length_sort)
  then have ne: "ds \<noteq> []" by (simp add: ds_def)
  have len: "int (length ds) = int (length g)" by (simp add: ds_def)
  note ok = newest_index_of_ok [OF ne, unfolded len]
  show "newest_ok (duplicate_entry mtime key idx g)"
    unfolding newest_ok_def duplicate_entry_fields ds_def [symmetric] by (rule ok)
  show "newest_ok (difference_entry mtime key idx g)"
    unfolding newest_ok_def difference_entry_fields ds_def [symmetric] by (rule ok)
qed

lemma update_member:
  "(k, v) \<in> set (AList.update k' v' al) \<Longrightarrow> (k, v) = (k', v') \<or> (k, v) \<in> set al"
  by (induction al) (auto split: if_splits)

lemma fold_invariant:
  "I init \<Longrightarrow> (\<And>x acc. x \<in> set xs \<Longrightarrow> I acc \<Longrightarrow> I (f x acc)) \<Longrightarrow> I (fold f xs init)"
  by (induction xs arbitrary: init) auto

lemma byte_group_loop_sizes:
  "(\<forall>g\<in>set groups. length g > 1) \<Longrightarrow>
   \<forall>g\<in>set (byte_group_loop same rank remaining groups). length g > 1"
proof (induction same rank remaining groups rule: byte_group_loop.induct)
  case (1 same rank remaining groups)
  show ?case
  proof (cases "sort_key (rank remaining) remaining")
    case Nil
    with "1.prems" show ?thesis
      by (simp add: byte_group_loop.simps [of same rank remaining groups])
  next
    case (Cons current_file others)
    define to_remove where "to_remove = filter (same current_file) others"
    define current_group where "current_group = current_file # to_remove"
    define groups' where
      "groups' = (if length current_group > 1 then groups @ [current_group] else groups)"
    have step: "byte_group_loop same rank remaining groups =
                byte_group_loop same rank (filter (\<lambda>p. p \<notin> set to_remove) others) groups'"
      using Cons
      by (simp add: byte_group_loop.simps [of same rank remaining groups] Let_def
          to_remove_def current_group_def groups'_def)
    have g': "\<forall>g\<in>set groups'. length g > 1"
      using "1.prems" by (auto simp: groups'_def current_group_def)
    note IH = "1.IH" [OF Cons to_remove_def current_group_def, folded groups'_def]
    have "\<forall>g\<in>set (byte_group_loop same rank (filter (\<lambda>p. p \<notin> set to_remove) others)
                  groups'). length g > 1"
      using g' by (rule IH)
    with step show ?thesis by simp
  qed
qed

lemma group_identical_files_byte_sizes:
  "g \<in> set (group_identical_files_byte d rank ps) \<Longrightarrow> length g > 1"
  using byte_group_loop_sizes [of "[]"]
  by (auto simp: group_identical_files_byte_def split: if_splits)

lemma group_identical_files_hash_sizes:
  "g \<in> set (fst (group_identical_files_hash H d cache ps)) \<Longrightarrow> length g > 1"
  by (auto simp: group_identical_files_hash_def split: if_splits prod.splits)

lemma all_groups_update:
  "all_groups P td \<Longrightarrow> \<forall>g\<in>set gs. P g \<Longrightarrow> all_groups P (AList.update k gs td)"
  unfolding all_groups_def by (auto dest!: update_member)

lemma all_groupsD: "all_groups P td \<Longrightarrow> (k, gs) \<in> set td \<Longrightarrow> g \<in> set gs \<Longrightarrow> P g"
  unfolding all_groups_def by blast

lemma all_groups_mono: "all_groups P td \<Longrightarrow> (\<And>g. P g \<Longrightarrow> Q g) \<Longrightarrow> all_groups Q td"
  unfolding all_groups_def by blast

lemma all_groups_Nil: "all_groups P []"
  by (simp add: all_groups_def)

lemma byte_comparison_sizes:
  "all_groups (\<lambda>g. length g > 1) (find_true_duplicates_byte_comparison d rank file_index m)"
  unfolding find_true_duplicates_byte_comparison_def
proof (rule fold_invariant)
  show "all_groups (\<lambda>g. length g > 1) []" by (rule all_groups_Nil)
next
  fix x :: "candidate_key \<times> string list" and acc :: grouping
  assume acc: "all_groups (\<lambda>g. length g > 1) acc"
  obtain key ps where x: "x = (key, ps)" by (cases x)
  have "\<forall>g\<in>set (group_identical_files_byte d rank ps). length g > 1"
    by (auto dest: group_identical_files_byte_sizes)
  then have "all_groups (\<lambda>g. length g > 1)
               (AList.update key (group_identical_files_byte d rank ps) acc)"
    using acc by (intro all_groups_update)
  with acc show "all_groups (\<lambda>g. length g > 1)
          ((\<lambda>(key, paths) true_duplicates.
              let groups = group_identical_files_byte d rank paths
              in if groups \<noteq> [] then AList.update key groups true_duplicates
                 else true_duplicates) x acc)"
    by (simp add: x Let_def)
qed

lemma hash_comparison_loop_sizes:
  "all_groups (\<lambda>g. length g > 1) td \<Longrightarrow>
   all_groups (\<lambda>g. length g > 1) (fst (hash_comparison_loop H d items cache td))"
proof (induction items arbitrary: cache td)
  case Nil
  then show ?case by simp
next
  case (Cons item items)
  obtain key ps where item: "item = (key, ps)" by (cases item)
  obtain gs c where r: "group_identical_files_hash H d cache ps = (gs, c)"
    by (cases "group_identical_files_hash H d cache ps")
  have "\<forall>g\<in>set gs. length g > 1"
    using group_identical_files_hash_sizes [of _ H d cache ps] r by simp
  then have "all_groups (\<lambda>g. length g > 1) (if gs \<noteq> [] then AList.update key gs td else td)"
    using Cons.prems by (simp add: all_groups_update)
  from Cons.IH [OF this] item r show ?case by simp
qed

lemma find_differences_singletons:
  "all_groups (\<lambda>g. length g = 1) (find_differences cands td)"
  unfolding find_differences_def
proof (rule fold_invariant)
  show "all_groups (\<lambda>g. length g = 1) []" by (rule all_groups_Nil)
next
  fix x :: "candidate_key \<times> string list" and acc :: grouping
  assume acc: "all_groups (\<lambda>g. length g = 1) acc"
  obtain key ps where x: "x = (key, ps)" by (cases x)
  have u: "all_groups (\<lambda>g. length g = 1) (AList.update key (map (\<lambda>path. [path]) qs) acc)" for qs
    using acc by (intro all_groups_update) auto
  show "all_groups (\<lambda>g. length g = 1)
          ((\<lambda>(key, paths) differences.
              case map_of td key of
                None \<Rightarrow> AList.update key (map (\<lambda>path. [path]) paths) differences
              | Some groups \<Rightarrow>
                  let found_paths = set (concat groups);
                      remaining = filter (\<lambda>p. p \<notin> found_paths) paths
                  in if remaining \<noteq> []
                     then AList.update key (map (\<lambda>path. [path]) remaining) differences
                     else differences) x acc)"
    using acc u by (simp add: x Let_def split: option.splits)
qed

lemma classify_nonempty:
  "all_groups (\<lambda>g. g \<noteq> []) (fst (classify m H d rank file_index min_size))"
  "all_groups (\<lambda>g. g \<noteq> []) (snd (classify m H d rank file_index min_size))"
proof -
  have "all_groups (\<lambda>g. length g > 1) (fst (classify m H d rank file_index min_size))"
  proof (cases m)
    case Byte
    with byte_comparison_sizes [of d rank file_index min_size] show ?thesis
      by (simp add: classify_def Let_def)
  next
    case Hash
    with hash_comparison_loop_sizes [OF all_groups_Nil, of H d
        "find_candidates_by_name_and_size file_index min_size" Map.empty]
    show ?thesis
      by (simp add: classify_def Let_def find_true_duplicates_hash_comparison_def)
  qed
  then show "all_groups (\<lambda>g. g \<noteq> []) (fst (classify m H d rank file_index min_size))"
    by (rule all_groups_mono) auto
  have "all_groups (\<lambda>g. length g = 1) (snd (classify m H d rank file_index min_size))"
    using find_differences_singletons by (simp add: classify_def Let_def)
  then show "all_groups (\<lambda>g. g \<noteq> []) (snd (classify m H d rank file_index min_size))"
    by (rule all_groups_mono) auto
qed

text \<open>
  Claim C3. In every run of the program, with either strategy, every record of the two
  documents has \<open>0 \<le> newest_index < file_count\<close>; where some date of the record is not
  empty, \<open>newest_index\<close> is the first position of the greatest date (in the order of
  strings); where every date is empty, \<open>newest_index\<close> is 0.
\<close>

theorem newest_index_correct:
  "list_all newest_ok (duplicates (fst (main_step2 m H d rank mtime file_index min_size))) \<and>
   list_all newest_ok (differences (snd (main_step2 m H d rank mtime file_index min_size)))"
proof -
  obtain td df where c: "classify m H d rank file_index min_size = (td, df)"
    by (cases "classify m H d rank file_index min_size")
  have td: "all_groups (\<lambda>g. g \<noteq> []) td" and df: "all_groups (\<lambda>g. g \<noteq> []) df"
    using classify_nonempty [of m H d rank file_index min_size] c by simp_all
  have m: "main_step2 m H d rank mtime file_index min_size = save_results_to_json mtime td df"
    by (simp add: main_step2_def c)
  have A: "newest_ok r" if "r \<in> set (duplicates_data_of mtime td)" for r
  proof -
    from duplicates_data_of_entry [OF that] obtain key gs idx g
      where e: "(key, gs) \<in> set td" "g \<in> set gs" "r = duplicate_entry mtime key idx g" by blast
    have "g \<noteq> []" using td e(1,2) by (rule all_groupsD)
    then show ?thesis unfolding e(3) by (rule entry_newest_ok)
  qed
  have B: "newest_ok r" if "r \<in> set (differences_data_of mtime df)" for r
  proof -
    from differences_data_of_entry [OF that] obtain key gs idx g
      where e: "(key, gs) \<in> set df" "g \<in> set gs" "r = difference_entry mtime key idx g" by blast
    have "g \<noteq> []" using df e(1,2) by (rule all_groupsD)
    then show ?thesis unfolding e(3) by (rule entry_newest_ok)
  qed
  show ?thesis
    unfolding m save_results_fields list_all_iff using A B by blast
qed

lemma example_candidates:
  "find_candidates_by_name_and_size example_index 0 =
     [((''photo'', ''jpg'', 5), [''b'', ''a'', ''c'', ''d''])]"
  by (simp add: find_candidates_by_name_and_size_def example_index_def)

lemma example_hash_groups4:
  "fst (group_identical_files_hash example_H example_disk Map.empty [''b'', ''a'', ''c'', ''d'']) =
     [[''b'', ''a'']]"
  using example_digests
  by (simp add: group_identical_files_hash_def compute_file_hash_eq example_reads
      hexdigest_nonempty)

lemma example_classify_hash:
  "classify Hash example_H example_disk (\<lambda>_ _. 0) example_index 0 =
     ([((''photo'', ''jpg'', 5), [[''b'', ''a'']])],
      [((''photo'', ''jpg'', 5), [[''c''], [''d'']])])"
proof -
  obtain c where g: "group_identical_files_hash example_H example_disk Map.empty
      [''b'', ''a'', ''c'', ''d''] = ([[''b'', ''a'']], c)"
    using example_hash_groups4
    by (cases "group_identical_files_hash example_H example_disk Map.empty
          [''b'', ''a'', ''c'', ''d'']") auto
  show ?thesis
    by (simp add: classify_def find_true_duplicates_hash_comparison_def example_candidates
        find_differences_def g Let_def)
qed

lemma example_main:
  "main_step2 Hash example_H example_disk (\<lambda>_ _. 0) example_mtime example_index 0 =
     (\<lparr>total_groups = 1, total_wasted_space_bytes = 5, duplicates = [example_record]\<rparr>,
      \<lparr>total_groups = 2,
       differences = [example_difference 1 ''c'', example_difference 2 ''d'']\<rparr>)"
  by (simp add: main_step2_def example_classify_hash example_save)

theorem newest_index_correct_witness:
  "newest_ok example_record \<and> newest_index example_record = 1 \<and>
   dates example_record ! 1 = ''2021-01-01T00:00:00'' \<and>
   newest_ok (example_difference 1 ''c'') \<and> newest_index (example_difference 1 ''c'') = 0"
  using newest_index_correct [of Hash example_H example_disk "\<lambda>_ _. 0" example_mtime
      example_index 0]
  by (simp add: example_main) (simp add: example_record_def example_difference_def)

section \<open>Files whose digest cannot be computed\<close>

lemma cache_soundD: "cache_sound d cache \<Longrightarrow> cache p = Some h \<Longrightarrow> \<exists>b. read_to_eof d p 8192 = Inr b"
  unfolding cache_sound_def by blast

lemma compute_file_hash_sound:
  "cache_sound d cache \<Longrightarrow> cache_sound d (snd (compute_file_hash H d cache p 8192))"
  unfolding cache_sound_def
  by (auto simp: compute_file_hash_eq split: option.splits sum.splits)

lemma hash_group_loop_sound:
  "cache_sound d cache \<Longrightarrow> cache_sound d (snd (hash_group_loop H d ps cache hg))"
proof (induction ps arbitrary: cache hg)
  case Nil
  then show ?case by simp
next
  case (Cons filepath ps)
  obtain h c1 where r: "compute_file_hash H d cache filepath 8192 = (h, c1)"
    by (cases "compute_file_hash H d cache filepath 8192")
  have "cache_sound d c1"
    using compute_file_hash_sound [OF Cons.prems, of H filepath] r by simp
  from Cons.IH [OF this] r show ?case by simp
qed

lemma group_identical_files_hash_sound:
  assumes "cache_sound d cache"
  shows "cache_sound d (snd (group_identical_files_hash H d cache ps))"
    and "g \<in> set (fst (group_identical_files_hash H d cache ps)) \<Longrightarrow> q \<in> set g \<Longrightarrow>
         \<exists>b. read_to_eof d q 8192 = Inr b"
proof -
  obtain hg c where r: "hash_group_loop H d ps cache [] = (hg, c)"
    by (cases "hash_group_loop H d ps cache []")
  have c: "cache_sound d c"
    using hash_group_loop_sound [OF assms, of H ps "[]"] r by simp
  then show "cache_sound d (snd (group_identical_files_hash H d cache ps))"
    using assms r by (simp add: group_identical_files_hash_def)
  have "grouped_by_cache cache []" by (simp add: grouped_by_cache_def)
  then have gb: "grouped_by_cache c hg" using r by (rule hash_group_loop_inv)
  show "\<exists>b. read_to_eof d q 8192 = Inr b"
    if "g \<in> set (fst (group_identical_files_hash H d cache ps))" "q \<in> set g"
  proof -
    from that r obtain h where "(h, g) \<in> set hg"
      by (auto simp: group_identical_files_hash_def split: if_splits)
    with gb that(2) have "c q = Some h" by (auto simp: grouped_by_cache_def)
    with c show ?thesis by (rule cache_soundD)
  qed
qed

lemma hash_comparison_loop_readable:
  "cache_sound d cache \<Longrightarrow> all_groups (readable d) td \<Longrightarrow>
   all_groups (readable d) (fst (hash_comparison_loop H d items cache td)) \<and>
   cache_sound d (snd (hash_comparison_loop H d items cache td))"
proof (induction items arbitrary: cache td)
  case Nil
  then show ?case by simp
next
  case (Cons item items)
  obtain key ps where item: "item = (key, ps)" by (cases item)
  obtain gs c where r: "group_identical_files_hash H d cache ps = (gs, c)"
    by (cases "group_identical_files_hash H d cache ps")
  have c: "cache_sound d c"
    using group_identical_files_hash_sound(1) [OF Cons.prems(1), of H ps] r by simp
  have "\<forall>g\<in>set gs. readable d g"
    using group_identical_files_hash_sound(2) [OF Cons.prems(1), of _ H ps] r
    by (auto simp: readable_def)
  then have "all_groups (readable d) (if gs \<noteq> [] then AList.update key gs td else td)"
    using Cons.prems(2) by (simp add: all_groups_update)
  from Cons.IH [OF c this] item r show ?case by simp
qed

lemma find_candidates_distinct:
  "distinct (map fst (find_candidates_by_name_and_size file_index m))"
  unfolding find_candidates_by_name_and_size_def
proof (rule fold_invariant)
  show "distinct (map fst ([] :: file_index))" by simp
next
  fix x :: "candidate_key \<times> string list" and acc :: file_index
  assume "distinct (map fst acc)"
  then show "distinct (map fst
     ((\<lambda>((fname, ext, size), paths) candidates.
          if size < m then candidates
          else if length paths > 1 then AList.update (fname, ext, size) paths candidates
          else candidates) x acc))"
    by (cases x) (auto simp: distinct_update split: prod.splits)
qed

lemma find_differences_fold: "find_differences cands td = fold (diff_step td) cands []"
  by (simp add: find_differences_def diff_step_def)

lemma diff_step_other:
  "k \<noteq> key \<Longrightarrow> map_of (diff_step td (k, ps) acc) key = map_of acc key"
  by (simp add: diff_step_def Let_def update_conv' split: option.splits)

lemma fold_diff_step_other:
  "key \<notin> fst ` set cands \<Longrightarrow> map_of (fold (diff_step td) cands acc) key = map_of acc key"
proof (induction cands arbitrary: acc)
  case Nil
  then show ?case by simp
next
  case (Cons c cands)
  obtain k ps where c: "c = (k, ps)" by (cases c)
  with Cons.prems have "k \<noteq> key" "key \<notin> fst ` set cands" by auto
  with Cons.IH [of "diff_step td c acc"] c show ?case
    by (simp add: diff_step_other)
qed

lemma diff_step_here:
  assumes "p \<in> set ps" "\<And>gs. map_of td key = Some gs \<Longrightarrow> p \<notin> set (concat gs)"
  shows "\<exists>gs. map_of (diff_step td (key, ps) acc) key = Some gs \<and> [p] \<in> set gs"
proof (cases "map_of td key")
  case None
  with assms(1) show ?thesis
    by (auto simp: diff_step_def update_conv')
next
  case (Some groups)
  with assms have "p \<in> set (filter (\<lambda>p. p \<notin> set (concat groups)) ps)" by auto
  then have "filter (\<lambda>p. p \<notin> set (concat groups)) ps \<noteq> []"
    "[p] \<in> set (map (\<lambda>path. [path]) (filter (\<lambda>p. p \<notin> set (concat groups)) ps))"
    by (auto simp del: set_filter)
  with Some show ?thesis
    by (simp add: diff_step_def Let_def update_conv' del: set_filter set_map set_concat)
qed

lemma find_differences_has:
  assumes "distinct (map fst cands)" "(key, ps) \<in> set cands" "p \<in> set ps"
    "\<And>gs. map_of td key = Some gs \<Longrightarrow> p \<notin> set (concat gs)"
  shows "\<exists>gs. map_of (find_differences cands td) key = Some gs \<and> [p] \<in> set gs"
proof -
  have "\<exists>gs. map_of (fold (diff_step td) cands acc) key = Some gs \<and> [p] \<in> set gs" for acc
    using assms(1,2)
  proof (induction cands arbitrary: acc)
    case Nil
    then show ?case by simp
  next
    case (Cons c cands)
    show ?case
    proof (cases "c = (key, ps)")
      case True
      with Cons.prems have "key \<notin> fst ` set cands" by force
      then have "map_of (fold (diff_step td) cands (diff_step td c acc)) key =
                 map_of (diff_step td c acc) key"
        by (rule fold_diff_step_other)
      moreover have "\<exists>gs. map_of (diff_step td (key, ps) acc) key = Some gs \<and> [p] \<in> set gs"
        by (rule diff_step_here [where td = td]) (fact assms(3), erule assms(4))
      ultimately show ?thesis using True by simp
    next
      case False
      with Cons.prems have "distinct (map fst cands)" "(key, ps) \<in> set cands" by auto
      from Cons.IH [OF this, of "diff_step td c acc"] show ?thesis by simp
    qed
  qed
  then show ?thesis by (simp add: find_differences_fold)
qed

lemma in_concat_map: "x \<in> set xs \<Longrightarrow> y \<in> set (f x) \<Longrightarrow> y \<in> set (concat (map f xs))"
  by auto

lemma differences_data_of_has:
  assumes "(key, gs) \<in> set df" "g \<in> set gs"
  shows "\<exists>idx. difference_entry mtime key idx g \<in> set (differences_data_of mtime df)"
proof -
  from assms(2) obtain i where i: "i < length gs" "gs ! i = g"
    by (auto simp: in_set_conv_nth)
  then have e: "(1 + i, g) \<in> set (enumerate 1 gs)"
    by (auto simp: in_set_enumerate_eq)
  have a: "difference_entry mtime key (1 + i) g \<in>
      set (map (\<lambda>(group_idx, grp). difference_entry mtime key group_idx grp) (enumerate 1 gs))"
    using imageI [OF e, of "\<lambda>(group_idx, grp). difference_entry mtime key group_idx grp"]
    by simp
  have b: "(key, gs) \<in> set (sort_key fst df)"
    using assms(1) by simp
  have "difference_entry mtime key (1 + i) g \<in> set (differences_data_of mtime df)"
    unfolding differences_data_of_def
    by (rule in_concat_map [OF b]) (simp only: prod.case a)
  then show ?thesis ..
qed

text \<open>
  Claim C5. Let \<open>p\<close> be a path of a candidate key whose file cannot be read to the end,
  in a classification with the hash strategy. Then \<open>compare_files_by_hash\<close> answers
  \<open>False\<close> whenever one of the two digests is empty; as long as \<open>p\<close> is not in the cache
  (and it never is: it is not at the end of the run) \<open>p\<close> compares unequal to every
  file, itself included; \<open>p\<close> is in no group of duplicates, in the classification and in
  the duplicates document; and \<open>[p]\<close> is a difference of its key, written to the
  differences document as a record with \<open>paths = [p]\<close>.
\<close>

theorem failed_digest_is_difference:
  assumes "(key, ps) \<in> set (find_candidates_by_name_and_size file_index min_size)"
    and "p \<in> set ps"
    and "read_to_eof d p 8192 = Inl e"
  shows "(fst (compute_file_hash H d cache f1 8192) = [] \<or>
          fst (compute_file_hash H d (snd (compute_file_hash H d cache f1 8192)) f2 8192) = []
          \<longrightarrow> \<not> fst (compare_files_by_hash H d cache f1 f2)) \<and>
         (cache p = None \<longrightarrow>
            \<not> fst (compare_files_by_hash H d cache p q) \<and>
            \<not> fst (compare_files_by_hash H d cache q p) \<and>
            \<not> fst (compare_files_by_hash H d cache p p)) \<and>
         snd (find_true_duplicates_hash_comparison H d Map.empty file_index min_size) p = None \<and>
         (\<forall>(k, gs)\<in>set (fst (classify Hash H d rank file_index min_size)).
            \<forall>g\<in>set gs. p \<notin> set g) \<and>
         (\<exists>gs. map_of (snd (classify Hash H d rank file_index min_size)) key = Some gs \<and>
               [p] \<in> set gs) \<and>
         (\<forall>r\<in>set (duplicates (fst (main_step2 Hash H d rank mtime file_index min_size))).
            p \<notin> set (paths r)) \<and>
         (\<exists>r\<in>set (differences (snd (main_step2 Hash H d rank mtime file_index min_size))).
            paths r = [p] \<and> file_count r = 1)"
proof -
  define cands where "cands = find_candidates_by_name_and_size file_index min_size"
  define td where "td = fst (hash_comparison_loop H d cands Map.empty [])"
  define df where "df = find_differences cands td"
  have cl: "classify Hash H d rank file_index min_size = (td, df)"
    by (simp add: classify_def Let_def find_true_duplicates_hash_comparison_def cands_def
        td_def df_def)
  have m: "main_step2 Hash H d rank mtime file_index min_size = save_results_to_json mtime td df"
    by (simp add: main_step2_def cl)
  have sound0: "cache_sound d Map.empty" by (simp add: cache_sound_def)
  have inv: "all_groups (readable d) td \<and>
             cache_sound d (snd (hash_comparison_loop H d cands Map.empty []))"
    unfolding td_def by (rule hash_comparison_loop_readable [OF sound0 all_groups_Nil])
  have unreadable: "\<not> readable d g" if "p \<in> set g" for g
  proof
    assume "readable d g"
    with that have "\<exists>b. read_to_eof d p 8192 = Inr b" by (simp add: readable_def)
    with assms(3) show False by simp
  qed
  have generic: "fst (compute_file_hash H d cache f1 8192) = [] \<or>
          fst (compute_file_hash H d (snd (compute_file_hash H d cache f1 8192)) f2 8192) = []
          \<longrightarrow> \<not> fst (compare_files_by_hash H d cache f1 f2)"
    by (auto simp: compare_files_by_hash_def split: prod.splits)
  have fails: "compute_file_hash H d c p 8192 = ([], c)" if "c p = None" for c
    using that assms(3) by (simp add: compute_file_hash_eq)
  have other: "snd (compute_file_hash H d c q 8192) p = c p" if "q \<noteq> p" for c
    using that by (simp add: compute_file_hash_eq split: option.splits sum.splits)
  have uncached: "cache p = None \<longrightarrow>
            \<not> fst (compare_files_by_hash H d cache p q) \<and>
            \<not> fst (compare_files_by_hash H d cache q p) \<and>
            \<not> fst (compare_files_by_hash H d cache p p)"
  proof
    assume n: "cache p = None"
    have first: "\<not> fst (compare_files_by_hash H d cache p f2)" for f2
      by (simp add: compare_files_by_hash_def fails [of cache, OF n] split: prod.splits)
    have "\<not> fst (compare_files_by_hash H d cache q p)"
    proof (cases "q = p")
      case True
      with first show ?thesis by simp
    next
      case False
      obtain h c where r: "compute_file_hash H d cache q 8192 = (h, c)"
        by (cases "compute_file_hash H d cache q 8192")
      with other [OF False, of cache] n have "c p = None" by simp
      from fails [of c, OF this] r show ?thesis
        by (simp add: compare_files_by_hash_def)
    qed
    with first show "\<not> fst (compare_files_by_hash H d cache p q) \<and>
            \<not> fst (compare_files_by_hash H d cache q p) \<and>
            \<not> fst (compare_files_by_hash H d cache p p)" by simp
  qed
  have final: "snd (find_true_duplicates_hash_comparison H d Map.empty file_index min_size) p = None"
  proof (rule ccontr)
    assume "snd (find_true_duplicates_hash_comparison H d Map.empty file_index min_size) p \<noteq> None"
    then obtain h where
      "snd (hash_comparison_loop H d cands Map.empty []) p = Some h"
      by (auto simp: find_true_duplicates_hash_comparison_def cands_def)
    with inv have "\<exists>b. read_to_eof d p 8192 = Inr b" by (blast dest: cache_soundD)
    with assms(3) show False by simp
  qed
  have excluded: "p \<notin> set g" if "(k, gs) \<in> set td" "g \<in> set gs" for k gs g
  proof
    assume "p \<in> set g"
    then have "\<not> readable d g" by (rule unreadable)
    moreover have "readable d g" using inv that by (blast dest: all_groupsD)
    ultimately show False by simp
  qed
  have diff: "\<exists>gs. map_of df key = Some gs \<and> [p] \<in> set gs"
    unfolding df_def
  proof (rule find_differences_has)
    show "distinct (map fst cands)" unfolding cands_def by (rule find_candidates_distinct)
    show "(key, ps) \<in> set cands" using assms(1) by (simp add: cands_def)
    show "p \<in> set ps" by (rule assms(2))
    show "p \<notin> set (concat gs)" if "map_of td key = Some gs" for gs
      using excluded [OF map_of_SomeD [OF that]] by auto
  qed
  then obtain gs where gs: "map_of df key = Some gs" "[p] \<in> set gs" by blast
  from differences_data_of_has [OF map_of_SomeD [OF gs(1)] gs(2), of mtime]
  obtain idx where "difference_entry mtime key idx [p] \<in> set (differences_data_of mtime df)" ..
  then have doc: "\<exists>r\<in>set (differences (snd (save_results_to_json mtime td df))).
                    paths r = [p] \<and> file_count r = 1"
    unfolding save_results_fields
    by (rule bexI [rotated]) (simp add: difference_entry_fields)
  have dups: "p \<notin> set (paths r)"
    if "r \<in> set (duplicates (fst (save_results_to_json mtime td df)))" for r
  proof -
    from that duplicates_data_of_entry [of r mtime td] obtain k gs idx g
      where e: "(k, gs) \<in> set td" "g \<in> set gs" "r = duplicate_entry mtime k idx g"
      unfolding save_results_fields by blast
    from excluded [OF e(1,2)] show ?thesis by (simp add: e(3) duplicate_entry_fields)
  qed
  have groups: "\<forall>(k, gs)\<in>set td. \<forall>g\<in>set gs. p \<notin> set g"
    using excluded by blast
  have dups_all: "\<forall>r\<in>set (duplicates (fst (save_results_to_json mtime td df))). p \<notin> set (paths r)"
    using dups by blast
  show ?thesis
    unfolding cl m fst_conv snd_conv
    by (intro conjI generic uncached final groups diff dups_all doc)
qed

theorem failed_digest_is_difference_witness:
  "((''photo'', ''jpg'', 5), [''b'', ''a'', ''c'', ''d''])
     \<in> set (find_candidates_by_name_and_size example_index 0) \<and>
   ''d'' \<in> set [''b'', ''a'', ''c'', ''d''] \<and>
   read_to_eof example_disk ''d'' 8192 = Inl (OSError ''read'') \<and>
   \<not> fst (compare_files_by_hash example_H example_disk Map.empty ''d'' ''d'') \<and>
   \<not> fst (compare_files_by_hash example_H example_disk Map.empty ''d'' ''a'') \<and>
   \<not> fst (compare_files_by_hash example_H example_disk Map.empty ''a'' ''d'') \<and>
   snd (find_true_duplicates_hash_comparison example_H example_disk Map.empty example_index 0) ''d'' = None \<and>
   classify Hash example_H example_disk (\<lambda>_ _. 0) example_index 0 =
     ([((''photo'', ''jpg'', 5), [[''b'', ''a'']])],
      [((''photo'', ''jpg'', 5), [[''c''], [''d'']])]) \<and>
   differences (snd (main_step2 Hash example_H example_disk (\<lambda>_ _. 0) example_mtime example_index 0)) =
     [example_difference 1 ''c'', example_difference 2 ''d''] \<and>
   paths (example_difference 2 ''d'') = [''d'']"
proof -
  note t = failed_digest_is_difference [where key = "(''photo'', ''jpg'', 5)"
      and ps = "[''b'', ''a'', ''c'', ''d'']" and file_index = example_index and min_size = 0
      and p = "''d''" and d = example_disk and e = "OSError ''read''" and H = example_H
      and cache = Map.empty and q = "''a''" and rank = "\<lambda>_ _. 0" and mtime = example_mtime
      and ?f1.0 = "''d''" and ?f2.0 = "''d''"]
  have c: "((''photo'', ''jpg'', 5), [''b'', ''a'', ''c'', ''d''])
     \<in> set (find_candidates_by_name_and_size example_index 0)"
    by (simp add: example_candidates)
  have m: "''d'' \<in> set [''b'', ''a'', ''c'', ''d'']" by simp
  note t' = t [OF c m example_reads(4)]
  from t' c m show ?thesis
    by (simp add: example_reads example_classify_hash example_main example_difference_def)
qed

section \<open>Properties of deletion\<close>











lemma do_log_fields [simp]:
  "duplicates_data (do_log s m) = duplicates_data s"
  "dry_run (do_log s m) = dry_run s"
  "log_lines (do_log s m) = log_lines s @ [m]"
  by (simp_all add: do_log_def)

lemma logs_fields [simp]:
  "duplicates_data (logs s ms) = duplicates_data s"
  "dry_run (logs s ms) = dry_run s"
  "log_lines (logs s ms) = log_lines s @ ms"
  unfolding logs_def by (induction ms arbitrary: s) simp_all










lemma DuplicateDeleter_fields [simp]:
  "duplicates_data (DuplicateDeleter j doc dry) = doc"
  "dry_run (DuplicateDeleter j doc dry) = dry"
  by (simp_all add: DuplicateDeleter_def)







section \<open>The dry run\<close>

lemma listed_paths_append [simp]: "listed_paths (xs @ ys) = listed_paths xs @ listed_paths ys"
  by (simp add: listed_paths_def)

lemma listed_paths_Nil [simp]: "listed_paths [] = []"
  by (simp add: listed_paths_def)

lemma listed_paths_Cons [simp]: "listed_paths (l # ls) = listed_path l @ listed_paths ls"
  by (simp add: listed_paths_def)


lemma listed_path_rule [simp]: "listed_path rule = []" "listed_path rule_nl = []"
  by (simp_all add: rule_def rule_nl_def)




















lemma DuplicateDeleter_lists_nothing [simp]:
  "listed_paths (log_lines (DuplicateDeleter j doc dry)) = []"
  by (simp add: DuplicateDeleter_def logs_def do_log_def)


section \<open>Confirmation\<close>





section \<open>Recovery when the source is missing\<close>

text \<open>
  Claim C9. In the loop of an execute run of \<open>recover_duplicates\<close> over the matching
  records, let \<open>g\<close> be a record reached without an exception, after the records \<open>pre\<close>,
  with the file system \<open>w1\<close>, and let \<open>paths[newest_index]\<close> of \<open>g\<close> not exist in \<open>w1\<close>. Then
  all that the run does for \<open>g\<close> is to log the two lines \<open>Group {idx}: {full_filename}\<close>
  and \<open>ERROR: Source file not found: {source_path}\<close>: the file system and the counters
  are passed unchanged (no directory made, no copy) to the same loop over the
  remaining records \<open>post\<close>, numbered on from \<open>g\<close>.
\<close>

theorem missing_source_skipped:
  assumes "recover_groups idx pre (r, w, acc) = Inr (r1, w1, acc1)"
    and "py_index (paths g) (newest_index g) = Inr source_path"
    and "\<not> os_path_exists w1 source_path"
  shows "recover_groups idx (pre @ g # post) (r, w, acc) =
           recover_groups (idx + length pre + 1) post
             (logs r1 [Msg ''\<newline>Group {idx}: {full_filename}''
                         [Num (int (idx + length pre)), Str (full_filename g)],
                       Msg ''  ERROR: Source file not found: {source_path}'' [Str source_path]],
              w1, acc1)"
  using assms(1)
proof (induction pre arbitrary: idx r w acc)
  case Nil
  then show ?case using assms(2,3) by simp
next
  case (Cons p pre)
  from Cons.prems obtain src where src: "py_index (paths p) (newest_index p) = Inr src"
    by (auto split: sum.splits)
  show ?case
  proof (cases "os_path_exists w src")
    case True
    obtain r2 w2 acc2 where st:
      "fold (recover_path (size_bytes p) (newest_index p) src) (enumerate 0 (paths p))
         (logs r [Msg ''\<newline>Group {idx}: {full_filename}'' [Num (int idx), Str (full_filename p)],
                  Msg ''  Source: {source_path}'' [Str src]], w, acc) = (r2, w2, acc2)"
      by (metis prod_cases3)
    from Cons.prems src True st have "recover_groups (Suc idx) pre (r2, w2, acc2) = Inr (r1, w1, acc1)"
      by simp
    from Cons.IH [OF this] src True st show ?thesis by simp
  next
    case False
    from Cons.prems src False have
      "recover_groups (Suc idx) pre
         (logs r [Msg ''\<newline>Group {idx}: {full_filename}'' [Num (int idx), Str (full_filename p)],
                  Msg ''  ERROR: Source file not found: {source_path}'' [Str src]], w, acc) =
       Inr (r1, w1, acc1)"
      by simp
    from Cons.IH [OF this] src False show ?thesis by simp
  qed
qed

lemma example_dirnames:
  "os_path_dirname ''c/notes.txt'' = ''c''" "os_path_dirname ''e/song.mp3'' = ''e''"
  "ancestors ''e'' = [''e'']"
  by code_simp+

lemma example_recovery:
  "calls (fst (recover_duplicates (DuplicateRecoverer ''dups.json'' three_groups None False True)
                 photo_lost False (\<lambda>w. None))) =
     [Copy2 ''d/notes.txt'' ''c/notes.txt'', MakeDirs ''e'', Copy2 ''f/song.mp3'' ''e/song.mp3'']"
  "\<exists>r' b. snd (recover_duplicates (DuplicateRecoverer ''dups.json'' three_groups None False True)
                 photo_lost False (\<lambda>w. None)) =
            Inr (r', 2, b, [''c/notes.txt'', ''e/song.mp3'']) \<and>
          Msg ''  ERROR: Source file not found: {source_path}'' [Str ''b/photo.jpg'']
            \<in> set (log_lines r')"
  by (simp_all add: recover_duplicates_def execute_recoveries_def filter_matching_groups_def
      DuplicateRecoverer_def selected_def three_groups_def photo_lost_def py_index_def
      enumerate_eq_zip os_path_exists_def os_makedirs_def shutil_copy2_def example_dirnames
      Let_def logs_def do_log_def recovery_failed_def rule_def rule_nl_def)

lemma example_first_group:
  "\<exists>r1 w1 acc1.
     recover_groups 1 [three_groups ! 0]
       (DuplicateRecoverer ''dups.json'' three_groups None False True, photo_lost,
        \<lparr>recovered_count = 0, space_restored = 0, recovered_files = [], failed_recoveries = []\<rparr>) =
       Inr (r1, w1, acc1) \<and>
     \<not> os_path_exists w1 ''b/photo.jpg'' \<and> recovered_files acc1 = [''c/notes.txt'']"
  by (simp add: DuplicateRecoverer_def selected_def three_groups_def photo_lost_def py_index_def
      enumerate_eq_zip os_path_exists_def os_makedirs_def shutil_copy2_def example_dirnames
      Let_def logs_def do_log_def recovery_failed_def)

theorem missing_source_skipped_witness:
  "py_index (paths (three_groups ! 1)) (newest_index (three_groups ! 1)) = Inr ''b/photo.jpg'' \<and>
   (\<exists>r1 w1 acc1.
      recover_groups 1 [three_groups ! 0]
        (DuplicateRecoverer ''dups.json'' three_groups None False True, photo_lost,
         \<lparr>recovered_count = 0, space_restored = 0, recovered_files = [], failed_recoveries = []\<rparr>) =
        Inr (r1, w1, acc1) \<and>
      \<not> os_path_exists w1 ''b/photo.jpg'' \<and>
      recover_groups 1 ([three_groups ! 0] @ three_groups ! 1 # [three_groups ! 2])
        (DuplicateRecoverer ''dups.json'' three_groups None False True, photo_lost,
         \<lparr>recovered_count = 0, space_restored = 0, recovered_files = [], failed_recoveries = []\<rparr>) =
        recover_groups 3 [three_groups ! 2]
          (logs r1 [Msg ''\<newline>Group {idx}: {full_filename}'' [Num 2, Str ''photo.jpg''],
                    Msg ''  ERROR: Source file not found: {source_path}'' [Str ''b/photo.jpg'']],
           w1, acc1)) \<and>
   calls (fst (recover_duplicates (DuplicateRecoverer ''dups.json'' three_groups None False True)
                 photo_lost False (\<lambda>w. None))) =
     [Copy2 ''d/notes.txt'' ''c/notes.txt'', MakeDirs ''e'', Copy2 ''f/song.mp3'' ''e/song.mp3'']"
proof -
  have i: "py_index (paths (three_groups ! 1)) (newest_index (three_groups ! 1)) = Inr ''b/photo.jpg''"
    by (simp add: three_groups_def py_index_def)
  have n: "full_filename (three_groups ! 1) = ''photo.jpg''"
    by (simp add: three_groups_def full_filename_def)
  from example_first_group obtain r1 w1 acc1 where
    a: "recover_groups 1 [three_groups ! 0]
          (DuplicateRecoverer ''dups.json'' three_groups None False True, photo_lost,
           \<lparr>recovered_count = 0, space_restored = 0, recovered_files = [], failed_recoveries = []\<rparr>) =
        Inr (r1, w1, acc1)"
    and b: "\<not> os_path_exists w1 ''b/photo.jpg''"
    by blast
  have l: "1 + length [three_groups ! 0] + 1 = 3" "int (1 + length [three_groups ! 0]) = 2"
    by simp_all
  from missing_source_skipped [OF a i b, of "[three_groups ! 2]"]
  have "recover_groups 1 ([three_groups ! 0] @ three_groups ! 1 # [three_groups ! 2])
        (DuplicateRecoverer ''dups.json'' three_groups None False True, photo_lost,
         \<lparr>recovered_count = 0, space_restored = 0, recovered_files = [], failed_recoveries = []\<rparr>) =
        recover_groups 3 [three_groups ! 2]
          (logs r1 [Msg ''\<newline>Group {idx}: {full_filename}'' [Num 2, Str ''photo.jpg''],
                    Msg ''  ERROR: Source file not found: {source_path}'' [Str ''b/photo.jpg'']],
           w1, acc1)"
    by (simp only: l n)
  with a b have "\<exists>r1 w1 acc1.
      recover_groups 1 [three_groups ! 0]
        (DuplicateRecoverer ''dups.json'' three_groups None False True, photo_lost,
         \<lparr>recovered_count = 0, space_restored = 0, recovered_files = [], failed_recoveries = []\<rparr>) =
        Inr (r1, w1, acc1) \<and>
      \<not> os_path_exists w1 ''b/photo.jpg'' \<and>
      recover_groups 1 ([three_groups ! 0] @ three_groups ! 1 # [three_groups ! 2])
        (DuplicateRecoverer ''dups.json'' three_groups None False True, photo_lost,
         \<lparr>recovered_count = 0, space_restored = 0, recovered_files = [], failed_recoveries = []\<rparr>) =
        recover_groups 3 [three_groups ! 2]
          (logs r1 [Msg ''\<newline>Group {idx}: {full_filename}'' [Num 2, Str ''photo.jpg''],
                    Msg ''  ERROR: Source file not found: {source_path}'' [Str ''b/photo.jpg'']],
           w1, acc1)"
    by blast
  with i example_recovery(1) show ?thesis by blast
qed

end
